theory Spec2Isabelle
  imports Complex_Main "HOL-Library.Log_Nat" "HOL-Library.Word"
begin

section \<open>IEEE-754 binary64 values and arithmetic\<close>

text \<open>
  The notebook computes with Python floats and C doubles, both IEEE-754 binary64.
  A double is a finite rational value, an infinity or a NaN.  The two zeros are one value
  here: the program never divides by a computed zero (its only divisor is the converted
  integer \<open>N\<close>, which is \<open>+0.0\<close> when it is zero), and \<open>==\<close> equates them.
  The four arithmetic operations round to nearest, ties to even, as IEEE-754 prescribes.
\<close>

datatype double = Finite rat | PInf | NInf | NaN

definition max_double :: rat where
  "max_double = 2 ^ 1024 - 2 ^ 971"

text \<open>Values at or above the midpoint of \<open>max_double\<close> and \<open>2 ^ 1024\<close> round to infinity.\<close>

definition overflow_threshold :: rat where
  "overflow_threshold = 2 ^ 1024 - 2 ^ 970"

definition round_half_even :: "rat \<Rightarrow> int" where
  "round_half_even q =
     (let f = \<lfloor>q\<rfloor>; d = q - of_int f
      in if d < 1 / 2 then f else if 1 / 2 < d then f + 1 else if even f then f else f + 1)"

text \<open>\<open>binade q\<close> is the integer \<open>e\<close> with \<open>2 ^ e \<le> |q| < 2 ^ (e + 1)\<close>, for \<open>q \<noteq> 0\<close>.\<close>

definition binade :: "rat \<Rightarrow> int" where
  "binade q =
     (case quotient_of \<bar>q\<bar> of
        (n, d) \<Rightarrow> let k = bitlen n - bitlen d in if 2 powi k \<le> \<bar>q\<bar> then k else k - 1)"

text \<open>The exponent of the unit in the last place: 53 significant bits, subnormals below
  \<open>2 ^ (-1022)\<close>.\<close>

definition ulp_exp :: "rat \<Rightarrow> int" where
  "ulp_exp q = max (binade q) (- 1022) - 52"

definition round64 :: "rat \<Rightarrow> double" where
  "round64 q =
     (if q = 0 then Finite 0
      else if overflow_threshold \<le> \<bar>q\<bar> then (if 0 < q then PInf else NInf)
      else let u = 2 powi ulp_exp q in Finite (of_int (round_half_even (q / u)) * u))"

fun fneg :: "double \<Rightarrow> double" where
  "fneg (Finite x) = Finite (- x)"
| "fneg PInf = NInf"
| "fneg NInf = PInf"
| "fneg NaN = NaN"

fun fadd :: "double \<Rightarrow> double \<Rightarrow> double" where
  "fadd NaN _ = NaN"
| "fadd _ NaN = NaN"
| "fadd (Finite x) (Finite y) = round64 (x + y)"
| "fadd PInf NInf = NaN"
| "fadd NInf PInf = NaN"
| "fadd PInf _ = PInf"
| "fadd NInf _ = NInf"
| "fadd (Finite x) i = i"

definition fsub :: "double \<Rightarrow> double \<Rightarrow> double" where
  "fsub x y = fadd x (fneg y)"

fun fmul :: "double \<Rightarrow> double \<Rightarrow> double" where
  "fmul NaN _ = NaN"
| "fmul _ NaN = NaN"
| "fmul (Finite x) (Finite y) = round64 (x * y)"
| "fmul (Finite x) i = (if x = 0 then NaN else if 0 < x then i else fneg i)"
| "fmul i (Finite y) = (if y = 0 then NaN else if 0 < y then i else fneg i)"
| "fmul i j = (if i = j then PInf else NInf)"

text \<open>Division as the hardware does it: a finite nonzero value over zero is an infinity,
  zero over zero and infinity over infinity are NaN.\<close>

fun fdiv :: "double \<Rightarrow> double \<Rightarrow> double" where
  "fdiv NaN _ = NaN"
| "fdiv _ NaN = NaN"
| "fdiv (Finite x) (Finite y) =
     (if y = 0 then (if x = 0 then NaN else if 0 < x then PInf else NInf)
      else round64 (x / y))"
| "fdiv (Finite x) i = Finite 0"
| "fdiv i (Finite y) = (if y < 0 then fneg i else i)"
| "fdiv i j = NaN"


section \<open>The C math library\<close>

text \<open>
  \<open>sin\<close> and \<open>cos\<close> are not code of the notebook: \<open>math.sin\<close>, \<open>math.cos\<close> and the
  functions imported from \<open>libc.math\<close> all call the platform's C library.  Their results at
  finite arguments are a parameter of every definition below; a finite argument gives a
  finite result.  At the other arguments the C functions return NaN, and the Python
  wrappers raise \<open>ValueError\<close> at an infinity.
\<close>

record libm =
  libm_sin :: "rat \<Rightarrow> rat"
  libm_cos :: "rat \<Rightarrow> rat"

definition c_sin :: "libm \<Rightarrow> double \<Rightarrow> double" where
  "c_sin L x = (case x of Finite q \<Rightarrow> Finite (libm_sin L q) | _ \<Rightarrow> NaN)"

definition c_cos :: "libm \<Rightarrow> double \<Rightarrow> double" where
  "c_cos L x = (case x of Finite q \<Rightarrow> Finite (libm_cos L q) | _ \<Rightarrow> NaN)"

section \<open>Python's float operations\<close>

datatype py_error = ZeroDivisionError | OverflowError | ValueError

definition math_sin :: "libm \<Rightarrow> double \<Rightarrow> py_error + double" where
  "math_sin L x =
     (case x of Finite q \<Rightarrow> Inr (Finite (libm_sin L q)) | NaN \<Rightarrow> Inr NaN | _ \<Rightarrow> Inl ValueError)"

definition math_cos :: "libm \<Rightarrow> double \<Rightarrow> py_error + double" where
  "math_cos L x =
     (case x of Finite q \<Rightarrow> Inr (Finite (libm_cos L q)) | NaN \<Rightarrow> Inr NaN | _ \<Rightarrow> Inl ValueError)"

text \<open>A Python int meeting a float is converted first; an int that rounds past the
  largest double raises \<open>OverflowError\<close>.\<close>

definition float_of_int :: "int \<Rightarrow> py_error + double" where
  "float_of_int n =
     (case round64 (of_int n) of Finite q \<Rightarrow> Inr (Finite q) | _ \<Rightarrow> Inl OverflowError)"

text \<open>\<open>x / n\<close> for a float \<open>x\<close> and an int \<open>n\<close>.\<close>

definition py_truediv :: "double \<Rightarrow> int \<Rightarrow> py_error + double" where
  "py_truediv x n =
     (case float_of_int n of
        Inl e \<Rightarrow> Inl e
      | Inr d \<Rightarrow> if d = Finite 0 then Inl ZeroDivisionError else Inr (fdiv x d))"

text \<open>\<open>i * x\<close> for an int \<open>i\<close> and a float \<open>x\<close>.\<close>

definition py_int_mul :: "int \<Rightarrow> double \<Rightarrow> py_error + double" where
  "py_int_mul i x = (case float_of_int i of Inl e \<Rightarrow> Inl e | Inr d \<Rightarrow> Inr (fmul d x))"

section \<open>The base Python implementation\<close>

definition fpy :: "libm \<Rightarrow> double \<Rightarrow> py_error + double" where
  "fpy L x =
     (case math_sin L x of
        Inl e \<Rightarrow> Inl e
      | Inr s \<Rightarrow> (case math_cos L x of Inl e \<Rightarrow> Inl e | Inr c \<Rightarrow> Inr (fmul s c)))"

text \<open>The body of \<open>for i in range(N)\<close>, from index \<open>i\<close> with accumulator \<open>s\<close>.\<close>

function python_loop ::
  "libm \<Rightarrow> double \<Rightarrow> double \<Rightarrow> int \<Rightarrow> int \<Rightarrow> double \<Rightarrow> py_error + double" where
  "python_loop L a dx N i s =
     (if i < N then
        (case py_int_mul i dx of
           Inl e \<Rightarrow> Inl e
         | Inr t \<Rightarrow>
             (case fpy L (fadd a t) of
                Inl e \<Rightarrow> Inl e
              | Inr y \<Rightarrow> python_loop L a dx N (i + 1) (fadd s y)))
      else Inr s)"
  by pat_completeness auto

termination
  by (relation "measure (\<lambda>(L, a, dx, N, i, s). nat (N - i))") auto

text \<open>The bounds \<open>a\<close> and \<open>b\<close> are floats, as in the notebook's calls, and the count \<open>N\<close>
  is a Python int.  \<open>s = 0\<close> is the int zero; the first float operation on it (\<open>s += ...\<close>,
  or \<open>s*dx\<close> after an empty loop) converts it to \<open>0.0\<close>.\<close>

definition integrate_python :: "libm \<Rightarrow> double \<Rightarrow> double \<Rightarrow> int \<Rightarrow> py_error + double" where
  "integrate_python L a b N =
     (case py_truediv (fsub b a) N of
        Inl e \<Rightarrow> Inl e
      | Inr dx \<Rightarrow>
          (case python_loop L a dx N 0 (Finite 0) of
             Inl e \<Rightarrow> Inl e
           | Inr s \<Rightarrow> Inr (fmul s dx)))"

section \<open>The vectorized implementation\<close>

text \<open>
  \<open>integrate_numpy\<close> calls \<open>np.linspace\<close>, \<open>np.sin\<close>, \<open>np.cos\<close> and \<open>np.sum\<close>, which are
  NumPy's and not code of the notebook: they are a parameter, like the C library.
  \<open>np.linspace(a, b, n)\<close> returns an array or raises; \<open>np.sin\<close> and \<open>np.cos\<close> work element
  by element; \<open>np.sum\<close> adds the elements of an array in an order of its own.
\<close>

record numpy =
  np_linspace :: "double \<Rightarrow> double \<Rightarrow> int \<Rightarrow> py_error + double list"
  np_sin :: "double \<Rightarrow> double"
  np_cos :: "double \<Rightarrow> double"
  np_sum :: "double list \<Rightarrow> double"

text \<open>\<open>fnp(x)\<close>: the product of the arrays \<open>np.sin(x)\<close> and \<open>np.cos(x)\<close>, element by element.\<close>

definition fnp :: "numpy \<Rightarrow> double list \<Rightarrow> double list" where
  "fnp NP x = map (\<lambda>v. fmul (np_sin NP v) (np_cos NP v)) x"

text \<open>The array \<open>x\<close> is built first, then \<open>dx\<close> as in the base Python function (the bounds are
  floats, the count a Python int); \<open>fnp(x)[:-1]\<close> leaves out the last element.\<close>

definition integrate_numpy :: "numpy \<Rightarrow> double \<Rightarrow> double \<Rightarrow> int \<Rightarrow> py_error + double" where
  "integrate_numpy NP a b N =
     (case np_linspace NP a b (N + 1) of
        Inl e \<Rightarrow> Inl e
      | Inr x \<Rightarrow>
          (case py_truediv (fsub b a) N of
             Inl e \<Rightarrow> Inl e
           | Inr dx \<Rightarrow> Inr (fmul dx (np_sum NP (butlast (fnp NP x))))))"

section \<open>The Cython implementations\<close>

text \<open>A C \<open>int\<close> is 32 bits wide; every such value is a double, so its conversion is exact.\<close>

definition double_of_int32 :: "32 word \<Rightarrow> double" where
  "double_of_int32 n = Finite (of_int (sint n))"

text \<open>The loop counter cannot wrap below its bound.\<close>

lemma sint_succ_below:
  fixes i N :: "32 word"
  assumes "sint i < sint N"
  shows "sint (i + 1) = sint i + 1"
proof -
  have "sint N < 2 ^ 31" using sint_lt [of N] by simp
  moreover have "- (2 ^ 31) \<le> sint i" using sint_ge [of i] by simp
  ultimately have "signed_take_bit 31 (sint i + 1) = sint i + 1"
    using assms by (intro signed_take_bit_int_eq_self) simp_all
  then show ?thesis
    by (simp add: sint_word_add)
qed

text \<open>With \<open>cdef int i\<close>, \<open>for i in range(N)\<close> is the C loop
  \<open>for (i = 0; i < N; i++)\<close>.  The integrand is a parameter: the four cells differ in it.\<close>

function cython_loop ::
  "(double \<Rightarrow> py_error + double) \<Rightarrow> double \<Rightarrow> double \<Rightarrow> 32 word \<Rightarrow> 32 word \<Rightarrow> double
     \<Rightarrow> py_error + double" where
  "cython_loop f a dx N i s =
     (if sint i < sint N then
        (case f (fadd a (fmul (double_of_int32 i) dx)) of
           Inl e \<Rightarrow> Inl e
         | Inr y \<Rightarrow> cython_loop f a dx N (i + 1) (fadd s y))
      else Inr s)"
  by pat_completeness auto

termination
  by (relation "measure (\<lambda>(f, a, dx, N, i, s). nat (sint N - sint i))")
     (auto simp: sint_succ_below)

text \<open>Without \<open>cdivision\<close>, Cython guards a division with a test of the divisor.\<close>

definition cython_div :: "double \<Rightarrow> 32 word \<Rightarrow> py_error + double" where
  "cython_div x N =
     (if N = 0 then Inl ZeroDivisionError else Inr (fdiv x (double_of_int32 N)))"

text \<open>\<open>integrate_cython_types\<close>: static types, the integrand still calls \<open>math\<close>.\<close>

definition f_types :: "libm \<Rightarrow> double \<Rightarrow> py_error + double" where
  "f_types L x =
     (case math_sin L x of
        Inl e \<Rightarrow> Inl e
      | Inr s \<Rightarrow> (case math_cos L x of Inl e \<Rightarrow> Inl e | Inr c \<Rightarrow> Inr (fmul s c)))"

definition integrate_cython_types ::
  "libm \<Rightarrow> double \<Rightarrow> double \<Rightarrow> 32 word \<Rightarrow> py_error + double" where
  "integrate_cython_types L a b N =
     (case cython_div (fsub b a) N of
        Inl e \<Rightarrow> Inl e
      | Inr dx \<Rightarrow>
          (case cython_loop (f_types L) a dx N 0 (Finite 0) of
             Inl e \<Rightarrow> Inl e
           | Inr s \<Rightarrow> Inr (fmul s dx)))"

text \<open>\<open>integrate_cython_libc\<close>: the integrand calls \<open>sin\<close> and \<open>cos\<close> of \<open>libc.math\<close>.\<close>

definition f_libc :: "libm \<Rightarrow> double \<Rightarrow> double" where
  "f_libc L x = fmul (c_sin L x) (c_cos L x)"

definition integrate_cython_libc ::
  "libm \<Rightarrow> double \<Rightarrow> double \<Rightarrow> 32 word \<Rightarrow> py_error + double" where
  "integrate_cython_libc L a b N =
     (case cython_div (fsub b a) N of
        Inl e \<Rightarrow> Inl e
      | Inr dx \<Rightarrow>
          (case cython_loop (\<lambda>x. Inr (f_libc L x)) a dx N 0 (Finite 0) of
             Inl e \<Rightarrow> Inl e
           | Inr s \<Rightarrow> Inr (fmul s dx)))"

text \<open>\<open>integrate_cython_cfun\<close>: the integrand is a C function (\<open>cdef double f\<close>).\<close>

definition f_cfun :: "libm \<Rightarrow> double \<Rightarrow> double" where
  "f_cfun L x = fmul (c_sin L x) (c_cos L x)"

definition integrate_cython_cfun ::
  "libm \<Rightarrow> double \<Rightarrow> double \<Rightarrow> 32 word \<Rightarrow> py_error + double" where
  "integrate_cython_cfun L a b N =
     (case cython_div (fsub b a) N of
        Inl e \<Rightarrow> Inl e
      | Inr dx \<Rightarrow>
          (case cython_loop (\<lambda>x. Inr (f_cfun L x)) a dx N 0 (Finite 0) of
             Inl e \<Rightarrow> Inl e
           | Inr s \<Rightarrow> Inr (fmul s dx)))"

text \<open>The standalone \<open>integrate\<close> of \<open>integrate.pyx\<close>: \<open>cdivision(True)\<close> removes the
  test of the divisor, so the division is the hardware's.\<close>

definition integrate :: "libm \<Rightarrow> double \<Rightarrow> double \<Rightarrow> 32 word \<Rightarrow> py_error + double" where
  "integrate L a b N =
     (let dx = fdiv (fsub b a) (double_of_int32 N)
      in case cython_loop (\<lambda>x. Inr (f_cfun L x)) a dx N 0 (Finite 0) of
           Inl e \<Rightarrow> Inl e
         | Inr s \<Rightarrow> Inr (fmul s dx))"

text \<open>The standalone function is declared \<open>cpdef\<close>: a call from Python, as
  \<open>integrate.integrate(a, b, N)\<close> in the notebook, converts the count to a C \<open>int\<close> first, and
  a Python int outside the C \<open>int\<close> range raises \<open>OverflowError\<close> there.\<close>

definition integrate_call :: "libm \<Rightarrow> double \<Rightarrow> double \<Rightarrow> int \<Rightarrow> py_error + double" where
  "integrate_call L a b N =
     (if - (2 ^ 31) \<le> N \<and> N < 2 ^ 31 then integrate L a b (word_of_int N)
      else Inl OverflowError)"

section \<open>The specification's sums\<close>

text \<open>The \<open>i\<close>-th sample point \<open>a + i\<cdot>dx\<close>, the index converted to a double.\<close>

definition sample :: "double \<Rightarrow> double \<Rightarrow> nat \<Rightarrow> double" where
  "sample a dx i = fadd a (fmul (round64 (of_nat i)) dx)"

text \<open>The accumulator of the specification: it starts at 0 and is updated once per
  subdivision with \<open>sin(a + i\<cdot>dx) \<cdot> cos(a + i\<cdot>dx)\<close>, for \<open>i\<close> from 0 to \<open>n - 1\<close>.\<close>

definition left_sum :: "libm \<Rightarrow> double \<Rightarrow> double \<Rightarrow> nat \<Rightarrow> double" where
  "left_sum L a dx n =
     foldl (\<lambda>s i. fadd s (fmul (c_sin L (sample a dx i)) (c_cos L (sample a dx i))))
       (Finite 0) [0..<n]"

text \<open>The specification's result \<open>s \<cdot> dx\<close> with \<open>dx = (b - a) / N\<close>.\<close>

definition riemann_left :: "libm \<Rightarrow> double \<Rightarrow> double \<Rightarrow> int \<Rightarrow> double" where
  "riemann_left L a b N =
     (let dx = fdiv (fsub b a) (round64 (of_int N)) in fmul (left_sum L a dx (nat N)) dx)"

text \<open>The trapezoidal rule with \<open>N\<close> subdivisions: both end points weigh one half, the
  interior points one.\<close>

definition trapezoid_sum :: "libm \<Rightarrow> double \<Rightarrow> double \<Rightarrow> int \<Rightarrow> double" where
  "trapezoid_sum L a b N =
     (let dx = fdiv (fsub b a) (round64 (of_int N));
          ends = fdiv (fadd (f_libc L a) (f_libc L b)) (Finite 2);
          s = foldl (\<lambda>s i. fadd s (f_libc L (sample a dx i))) ends [1..<nat N]
      in fmul s dx)"

text \<open>One term of the sum.\<close>

definition term_at :: "libm \<Rightarrow> double \<Rightarrow> double \<Rightarrow> nat \<Rightarrow> double" where
  "term_at L a dx j = fmul (c_sin L (sample a dx j)) (c_cos L (sample a dx j))"

definition is_infinite :: "double \<Rightarrow> bool" where
  "is_infinite x = (x = PInf \<or> x = NInf)"

definition finite_double :: "double \<Rightarrow> bool" where
  "finite_double x = (case x of Finite q \<Rightarrow> \<bar>q\<bar> \<le> max_double | _ \<Rightarrow> False)"

text \<open>What every C library guarantees of \<open>sin\<close> and \<open>cos\<close>: results between -1 and 1.\<close>

definition libm_bounded :: "libm \<Rightarrow> bool" where
  "libm_bounded L = (\<forall>q. \<bar>libm_sin L q\<bar> \<le> 1 \<and> \<bar>libm_cos L q\<bar> \<le> 1)"

text \<open>The double \<open>1.5707963267948966\<close>, the notebook's \<open>0.5*np.pi\<close>.\<close>

definition half_pi :: rat where
  "half_pi = 884279719003555 / 562949953421312"

text \<open>The doubles \<open>0.8414709848078965\<close> and \<open>0.5403023058681398\<close>, the values of
  \<open>math.sin(1.0)\<close> and \<open>math.cos(1.0)\<close>, and their product rounded,
  \<open>0.4546487134128409\<close>.\<close>

definition sin_1 :: rat where
  "sin_1 = 3789648413623927 / 4503599627370496"

definition cos_1 :: rat where
  "cos_1 = 1216652631687587 / 2251799813685248"

definition sincos_1 :: rat where
  "sincos_1 = 8190223105242183 / 18014398509481984"

text \<open>The double \<open>6.123233995736766e-17\<close>, the value of \<open>math.cos(1.5707963267948966)\<close>;
  \<open>math.sin\<close> is \<open>1.0\<close> there.\<close>

definition cos_half_pi :: rat where
  "cos_half_pi = 4967757600021511 / 81129638414606681695789005144064"

text \<open>The double \<open>4.8091767343044744e-17\<close>.\<close>

definition trapezoid_half_pi :: rat where
  "trapezoid_half_pi = 1950833847630305 / 40564819207303340847894502572032"

text \<open>The values the C library returns for \<open>sin\<close> and \<open>cos\<close> at the doubles 0, 1 and
  \<open>1.5707963267948966\<close>, the only arguments the concrete runs below pass to them.\<close>

definition libm_table :: libm where
  "libm_table =
     \<lparr> libm_sin = (\<lambda>q. if q = 1 then sin_1 else if q = half_pi then 1 else 0),
       libm_cos = (\<lambda>q. if q = 1 then cos_1 else if q = half_pi then cos_half_pi else 1) \<rparr>"

text \<open>A large double, \<open>2 ^ 1023\<close> (about \<open>8.99e307\<close>).\<close>

definition huge :: rat where
  "huge = 2 ^ 1023"

text \<open>An accuracy bound on the C library: \<open>sin\<close> and \<open>cos\<close> are within \<open>2 ^ -20\<close> of the
  mathematical sine and cosine at every argument.\<close>

definition libm_accurate :: "libm \<Rightarrow> bool" where
  "libm_accurate L =
     (\<forall>q. \<bar>of_rat (libm_sin L q) - sin (of_rat q :: real)\<bar> \<le> 1 / 2 ^ 20 \<and>
          \<bar>of_rat (libm_cos L q) - cos (of_rat q :: real)\<bar> \<le> 1 / 2 ^ 20)"

text \<open>A library within that bound: the mathematical value rounded down to a multiple of
  \<open>2 ^ -21\<close>, which is a double.\<close>

definition libm_rounded :: libm where
  "libm_rounded =
     \<lparr>libm_sin = (\<lambda>q. of_int \<lfloor>sin (of_rat q :: real) * 2 ^ 21\<rfloor> / 2 ^ 21),
      libm_cos = (\<lambda>q. of_int \<lfloor>cos (of_rat q :: real) * 2 ^ 21\<rfloor> / 2 ^ 21)\<rparr>"

text \<open>The sum of \<open>sin(j * D) * cos(j * D)\<close> over \<open>j < n\<close>, in the reals.\<close>

definition exact_sum :: "real \<Rightarrow> nat \<Rightarrow> real" where
  "exact_sum D n = (\<Sum>j<n. sin (real j * D) * cos (real j * D))"

text \<open>What one turn of the loop can add to the distance between the accumulator and
  \<open>exact_sum\<close>: the error of the product of the library's values and of its rounding, the
  two roundings of the sample point, and the rounding of the addition.\<close>

definition step_error :: real where
  "step_error = 3 / 2 ^ 20 + 1 / 2 ^ 52 + 1 / 2 ^ 51 + 1 / 2 ^ 33"

text \<open>The terms of the left-endpoint sum, in the order of the loop.\<close>

definition left_terms :: "libm \<Rightarrow> double \<Rightarrow> double \<Rightarrow> int \<Rightarrow> double list" where
  "left_terms L a b N =
     (let dx = fdiv (fsub b a) (round64 (of_int N)) in map (term_at L a dx) [0..<nat N])"

text \<open>What the vectorized function needs of NumPy at one call: \<open>np.linspace(a, b, N + 1)\<close>
  returns the points \<open>a + i * dx\<close> for \<open>i < N\<close>, followed by \<open>b\<close>, and \<open>np.sin\<close> and
  \<open>np.cos\<close> return the values of the C library.\<close>

definition numpy_samples :: "numpy \<Rightarrow> libm \<Rightarrow> double \<Rightarrow> double \<Rightarrow> int \<Rightarrow> bool" where
  "numpy_samples NP L a b N =
     (np_linspace NP a b (N + 1) =
        Inr (map (sample a (fdiv (fsub b a) (round64 (of_int N)))) [0..<nat N] @ [b]) \<and>
      (\<forall>v. np_sin NP v = c_sin L v \<and> np_cos NP v = c_cos L v))"

text \<open>A NumPy for the concrete runs: \<open>np.linspace\<close> rejects a negative number of points,
  returns the points \<open>start + i * step\<close> with \<open>step = (stop - start) / (num - 1)\<close> and
  \<open>stop\<close> itself as the last one; \<open>np.sin\<close> and \<open>np.cos\<close> are the C library's; \<open>np.sum\<close>
  adds from left to right, from 0.\<close>

definition numpy_plain :: "libm \<Rightarrow> numpy" where
  "numpy_plain L =
     \<lparr> np_linspace = (\<lambda>a b n.
         if n < 0 then Inl ValueError
         else if n = 0 then Inr []
         else if n = 1 then Inr [fadd (fmul (Finite 0) (fsub b a)) a]
         else Inr (map (sample a (fdiv (fsub b a) (round64 (of_int (n - 1)))))
                     [0..<nat (n - 1)] @ [b])),
       np_sin = c_sin L,
       np_cos = c_cos L,
       np_sum = foldl fadd (Finite 0) \<rparr>"

section \<open>Rounding\<close>

lemma bitlen_powi_bounds:
  assumes "0 < n"
  shows "(2::rat) powi (bitlen n - 1) \<le> of_int n" and "(of_int n :: rat) < 2 powi bitlen n"
proof -
  have b: "2 ^ nat (bitlen n - 1) \<le> n" "n < 2 ^ nat (bitlen n)"
    using bitlen_bounds [OF assms] by simp_all
  have pos: "1 \<le> bitlen n"
    using assms bitlen_eq_zero_iff [of n] bitlen_nonneg [of n] by linarith
  have "(of_int (2 ^ nat (bitlen n - 1)) :: rat) \<le> of_int n"
    using b(1) by (simp only: of_int_le_iff)
  then show "(2::rat) powi (bitlen n - 1) \<le> of_int n"
    using pos by (simp add: power_int_def)
  have "(of_int n :: rat) < of_int (2 ^ nat (bitlen n))"
    using b(2) by (simp only: of_int_less_iff)
  then show "(of_int n :: rat) < 2 powi bitlen n"
    using pos by (simp add: power_int_def)
qed

lemma binade_bounds:
  assumes "q \<noteq> 0"
  shows "2 powi binade q \<le> \<bar>q\<bar>" and "\<bar>q\<bar> < 2 powi (binade q + 1)"
proof -
  obtain n d where nd: "quotient_of \<bar>q\<bar> = (n, d)"
    by (cases "quotient_of \<bar>q\<bar>")
  have d: "0 < d" using quotient_of_denom_pos [OF nd] .
  have q: "\<bar>q\<bar> = of_int n / of_int d" using quotient_of_div [OF nd] .
  have n: "0 < n"
  proof (rule ccontr)
    assume "\<not> 0 < n"
    then have "(of_int n :: rat) / of_int d \<le> 0"
      using d by (simp add: divide_le_0_iff)
    then show False using q assms by simp
  qed
  let ?k = "bitlen n - bitlen d"
  have up: "\<bar>q\<bar> < 2 powi (?k + 1)"
  proof -
    have "of_int n / of_int d < (2::rat) powi bitlen n / 2 powi (bitlen d - 1)"
      using bitlen_powi_bounds [OF n] bitlen_powi_bounds [OF d] d n
      by (intro frac_less) simp_all
    also have "\<dots> = 2 powi (bitlen n - (bitlen d - 1))"
      by (rule power_int_diff [symmetric]) simp
    also have "bitlen n - (bitlen d - 1) = ?k + 1"
      by simp
    finally show ?thesis using q by simp
  qed
  have lo: "2 powi (?k - 1) \<le> \<bar>q\<bar>"
  proof -
    have "(2::rat) powi (bitlen n - 1) / 2 powi bitlen d \<le> of_int n / of_int d"
      using bitlen_powi_bounds [OF n] bitlen_powi_bounds [OF d] d n
      by (intro frac_le) simp_all
    moreover have "(2::rat) powi (bitlen n - 1) / 2 powi bitlen d = 2 powi (bitlen n - 1 - bitlen d)"
      by (rule power_int_diff [symmetric]) simp
    moreover have "bitlen n - 1 - bitlen d = ?k - 1"
      by simp
    ultimately show ?thesis using q by simp
  qed
  show "2 powi binade q \<le> \<bar>q\<bar>"
    using lo by (simp add: binade_def nd Let_def)
  show "\<bar>q\<bar> < 2 powi (binade q + 1)"
    using up by (auto simp add: binade_def nd Let_def not_le)
qed

lemma rhe_le:
  assumes "q \<le> of_int n"
  shows "round_half_even q \<le> n"
proof (cases "\<lfloor>q\<rfloor> = n")
  case True
  then have "q = of_int n" using assms by (metis of_int_floor_le antisym)
  then show ?thesis by (simp add: round_half_even_def)
next
  case False
  have "\<lfloor>q\<rfloor> \<le> n" using assms by (simp add: floor_le_iff) 
  then have "\<lfloor>q\<rfloor> + 1 \<le> n" using False by simp
  then show ?thesis by (simp add: round_half_even_def Let_def)
qed

lemma rhe_ge:
  assumes "of_int n \<le> q"
  shows "n \<le> round_half_even q"
proof -
  have "n \<le> \<lfloor>q\<rfloor>" using assms by (simp add: le_floor_iff)
  then show ?thesis by (simp add: round_half_even_def Let_def)
qed

lemma rhe_le_half:
  assumes "q < of_int n + 1 / 2"
  shows "round_half_even q \<le> n"
proof (cases "\<lfloor>q\<rfloor> = n")
  case True
  then have "q - of_int \<lfloor>q\<rfloor> < 1 / 2" using assms by simp
  then show ?thesis using True by (simp add: round_half_even_def Let_def)
next
  case False
  have "q < of_int (n + 1)" using assms by simp
  then have "\<lfloor>q\<rfloor> < n + 1" by (simp only: floor_less_iff)
  then have "\<lfloor>q\<rfloor> + 1 \<le> n" using False by simp
  then show ?thesis by (simp add: round_half_even_def Let_def)
qed

lemma rhe_ge_half:
  assumes "of_int n - 1 / 2 < q"
  shows "n \<le> round_half_even q"
proof (cases "n \<le> \<lfloor>q\<rfloor>")
  case True
  then show ?thesis by (simp add: round_half_even_def Let_def)
next
  case False
  have "of_int (n - 1) \<le> q" using assms by simp
  then have "n - 1 \<le> \<lfloor>q\<rfloor>" by (simp only: le_floor_iff)
  then have f: "\<lfloor>q\<rfloor> = n - 1" using False by simp
  then have "1 / 2 < q - of_int \<lfloor>q\<rfloor>" using assms by simp
  then show ?thesis using f by (simp add: round_half_even_def Let_def)
qed

lemma round64_Finite:
  assumes "\<bar>q\<bar> < overflow_threshold"
  shows "round64 q = Finite (of_int (round_half_even (q / 2 powi ulp_exp q)) * 2 powi ulp_exp q)"
  using assms by (simp add: round64_def Let_def round_half_even_def)

lemma round64_between:
  assumes fin: "\<bar>q\<bar> < overflow_threshold"
    and j: "ulp_exp q \<le> j"
    and lo: "of_int lo * 2 powi j \<le> q"
    and hi: "q \<le> of_int hi * 2 powi j"
  shows "\<exists>r. round64 q = Finite r \<and> of_int lo * 2 powi j \<le> r \<and> r \<le> of_int hi * 2 powi j"
proof -
  define u :: rat where "u = 2 powi ulp_exp q"
  define d where "d = nat (j - ulp_exp q)"
  define m where "m = round_half_even (q / u)"
  have u: "0 < u" by (simp add: u_def)
  have "(2::rat) powi j = 2 powi (int d + ulp_exp q)"
    using j by (simp add: d_def)
  also have "\<dots> = 2 powi int d * 2 powi ulp_exp q"
    by (rule power_int_add) simp
  finally have pj: "(2::rat) powi j = of_int (2 ^ d) * u"
    by (simp add: u_def)
  have "of_int (lo * 2 ^ d) \<le> q / u"
    using lo u by (simp add: pj le_divide_eq mult.assoc)
  then have m_lo: "lo * 2 ^ d \<le> m"
    unfolding m_def by (rule rhe_ge)
  have "q / u \<le> of_int (hi * 2 ^ d)"
    using hi u by (simp add: pj divide_le_eq mult.assoc)
  then have m_hi: "m \<le> hi * 2 ^ d"
    unfolding m_def by (rule rhe_le)
  have r: "round64 q = Finite (of_int m * u)"
    using round64_Finite [OF fin] by (simp add: m_def u_def)
  have "(of_int (lo * 2 ^ d) :: rat) * u \<le> of_int m * u"
    using m_lo u by (simp only: mult_le_cancel_right_pos of_int_le_iff)
  then have 1: "of_int lo * 2 powi j \<le> of_int m * u"
    by (simp add: pj mult.assoc)
  have "(of_int m :: rat) * u \<le> of_int (hi * 2 ^ d) * u"
    using m_hi u by (simp only: mult_le_cancel_right_pos of_int_le_iff)
  then have 2: "of_int m * u \<le> of_int hi * 2 powi j"
    by (simp add: pj mult.assoc)
  show ?thesis using r 1 2 by blast
qed

lemma binade_le:
  assumes "q \<noteq> 0" "\<bar>q\<bar> \<le> 2 powi k"
  shows "binade q \<le> k"
proof (rule ccontr)
  assume "\<not> binade q \<le> k"
  then have "(2::rat) powi k < 2 powi binade q"
    by (intro power_int_strict_increasing) simp_all
  then show False using binade_bounds(1) [OF assms(1)] assms(2) by simp
qed

lemma binade_ge:
  assumes "q \<noteq> 0" "2 powi k \<le> \<bar>q\<bar>"
  shows "k \<le> binade q"
proof (rule ccontr)
  assume "\<not> k \<le> binade q"
  then have "binade q + 1 \<le> k" by simp
  then have "(2::rat) powi (binade q + 1) \<le> 2 powi k"
    by (intro power_int_increasing) simp_all
  then show False using binade_bounds(2) [OF assms(1)] assms(2) by simp
qed

lemma pow2_1023_less_threshold: "(2::rat) powi 1023 < overflow_threshold"
  by (simp add: overflow_threshold_def)

lemma round64_abs_le:
  assumes k: "- 1022 \<le> k" "k \<le> 1023" and q: "\<bar>q\<bar> \<le> 2 powi k"
  shows "\<exists>r. round64 q = Finite r \<and> \<bar>r\<bar> \<le> 2 powi k"
proof (cases "q = 0")
  case True
  then show ?thesis by (simp add: round64_def)
next
  case False
  have "(2::rat) powi k \<le> 2 powi 1023"
    using k by (intro power_int_increasing) simp_all
  then have fin: "\<bar>q\<bar> < overflow_threshold"
    using q pow2_1023_less_threshold by linarith
  have "binade q \<le> k" using False q by (rule binade_le)
  then have j: "ulp_exp q \<le> k" using k by (simp add: ulp_exp_def)
  have "of_int (- 1) * 2 powi k \<le> q" "q \<le> of_int 1 * 2 powi k"
    using q by (simp_all add: abs_le_iff)
  from round64_between [OF fin j this]
  show ?thesis by (auto simp: abs_le_iff) 
qed


lemma round64_abs_ge:
  assumes k: "- 1022 \<le> k" and q: "2 powi k \<le> \<bar>q\<bar>" and fin: "\<bar>q\<bar> < overflow_threshold"
  shows "\<exists>r. round64 q = Finite r \<and> 2 powi k \<le> \<bar>r\<bar>"
proof -
  have nz: "q \<noteq> 0"
  proof
    assume "q = 0"
    then have "(2::rat) powi k \<le> 0" using q by simp
    moreover have "(0::rat) < 2 powi k" by (rule zero_less_power_int) simp
    ultimately show False by linarith
  qed
  have ke: "k \<le> binade q" using nz q by (rule binade_ge)
  have j: "ulp_exp q \<le> binade q" using k ke by (simp add: ulp_exp_def)
  have pk: "(2::rat) powi k \<le> 2 powi binade q"
    using ke by (intro power_int_increasing) simp_all
  have b: "2 powi binade q \<le> \<bar>q\<bar>" "\<bar>q\<bar> < 2 powi (binade q + 1)"
    using binade_bounds [OF nz] by simp_all
  have p1: "(2::rat) powi (binade q + 1) = 2 * 2 powi binade q"
    by (simp add: power_int_add)
  show ?thesis
  proof (cases "0 < q")
    case True
    have "of_int 1 * 2 powi binade q \<le> q" "q \<le> of_int 2 * 2 powi binade q"
      using True b p1 by simp_all
    from round64_between [OF fin j this] pk show ?thesis by auto
  next
    case False
    have "of_int (- 2) * 2 powi binade q \<le> q" "q \<le> of_int (- 1) * 2 powi binade q"
      using False b p1 by simp_all
    from round64_between [OF fin j this] pk show ?thesis by auto
  qed
qed

lemma round64_int_nonzero:
  assumes "n \<noteq> 0" "round64 (of_int n) = Finite r"
  shows "r \<noteq> 0"
proof -
  have "of_int n \<noteq> (0::rat)" using assms(1) by simp
  then have fin: "\<bar>of_int n :: rat\<bar> < overflow_threshold"
    using assms(2) by (auto simp: round64_def split: if_splits)
  have "(2::rat) powi 0 \<le> \<bar>of_int n\<bar>"
    using assms(1) by (simp flip: of_int_abs)
  from round64_abs_ge [OF _ this fin] assms(2) show ?thesis by auto
qed

lemma rhe_of_int [simp]: "round_half_even (of_int z) = z"
  by (simp add: round_half_even_def)

lemma round64_zero [simp]: "round64 0 = Finite 0"
  by (simp add: round64_def)

text \<open>Integers below \<open>2 ^ 53\<close> in magnitude are doubles.\<close>

lemma round64_int_exact:
  assumes "\<bar>n\<bar> < 2 ^ 53"
  shows "round64 (of_int n) = Finite (of_int n)"
proof (cases "n = 0")
  case True
  then show ?thesis by simp
next
  case False
  let ?q = "of_int n :: rat"
  have nz: "?q \<noteq> 0" using False by simp
  have "\<bar>?q\<bar> = of_int \<bar>n\<bar>" by simp
  also have "\<dots> < of_int (2 ^ 53)" using assms by (simp only: of_int_less_iff)
  finally have lt: "\<bar>?q\<bar> < 2 powi 53" by simp
  have "(1::rat) \<le> of_int \<bar>n\<bar>" using False by (simp flip: of_int_abs)
  then have ge: "2 powi 0 \<le> \<bar>?q\<bar>" by simp
  have e0: "0 \<le> binade ?q" using nz ge by (rule binade_ge)
  have e52: "binade ?q \<le> 52"
  proof (rule ccontr)
    assume "\<not> binade ?q \<le> 52"
    then have "(2::rat) powi 53 \<le> 2 powi binade ?q"
      by (intro power_int_increasing) simp_all
    then show False using lt binade_bounds(1) [OF nz] by linarith
  qed
  define d where "d = nat (52 - binade ?q)"
  have ue: "ulp_exp ?q = - int d" using e0 e52 by (simp add: ulp_exp_def d_def)
  have u: "(2::rat) powi ulp_exp ?q = 1 / of_int (2 ^ d)"
    by (simp add: ue power_int_minus_divide)
  have "(2::rat) powi 53 < overflow_threshold" by (simp add: overflow_threshold_def)
  then have fin: "\<bar>?q\<bar> < overflow_threshold" using lt by linarith
  have "?q / 2 powi ulp_exp ?q = of_int (n * 2 ^ d)" by (simp add: u)
  then have "round_half_even (?q / 2 powi ulp_exp ?q) = n * 2 ^ d"
    by (simp only: rhe_of_int)
  then show ?thesis
    using round64_Finite [OF fin] by (simp add: u)
qed

lemma round64_one [simp]: "round64 1 = Finite 1"
  using round64_int_exact [of 1] by simp

lemma round64_minus_one [simp]: "round64 (- 1) = Finite (- 1)"
  using round64_int_exact [of "- 1"] by simp

lemma round64_two [simp]: "round64 2 = Finite 2"
  using round64_int_exact [of 2] by simp

lemma pow2_le_abs_nonzero:
  assumes "2 powi k \<le> \<bar>q :: rat\<bar>"
  shows "q \<noteq> 0"
proof
  assume "q = 0"
  then have "(2::rat) powi k \<le> 0" using assms by simp
  moreover have "(0::rat) < 2 powi k" by (rule zero_less_power_int) simp
  ultimately show False by linarith
qed

lemma binade_eq:
  assumes "2 powi e \<le> \<bar>q\<bar>" "\<bar>q\<bar> < 2 powi (e + 1)"
  shows "binade q = e"
proof -
  have nz: "q \<noteq> 0" using assms(1) by (rule pow2_le_abs_nonzero)
  have ge: "e \<le> binade q" using nz assms(1) by (rule binade_ge)
  have "binade q \<le> e"
  proof (rule ccontr)
    assume "\<not> binade q \<le> e"
    then have "(2::rat) powi (e + 1) \<le> 2 powi binade q"
      by (intro power_int_increasing) simp_all
    then show False using assms(2) binade_bounds(1) [OF nz] by linarith
  qed
  then show ?thesis using ge by simp
qed

lemma round64_nearest:
  assumes e: "- 1022 \<le> e" "e \<le> 1022"
    and lo: "2 powi e \<le> \<bar>q\<bar>" and hi: "\<bar>q\<bar> < 2 powi (e + 1)"
    and near: "\<bar>q - of_int m * 2 powi (e - 52)\<bar> < 2 powi (e - 52) / 2"
  shows "round64 q = Finite (of_int m * 2 powi (e - 52))"
proof -
  define u :: rat where "u = 2 powi (e - 52)"
  have u: "0 < u" unfolding u_def by (rule zero_less_power_int) simp
  have bq: "binade q = e" using lo hi by (rule binade_eq)
  have ue: "ulp_exp q = e - 52" using e by (simp add: ulp_exp_def bq)
  have "(2::rat) powi (e + 1) \<le> 2 powi 1023"
    using e by (intro power_int_increasing) simp_all
  then have fin: "\<bar>q\<bar> < overflow_threshold"
    using hi pow2_1023_less_threshold by linarith
  have n: "\<bar>q - of_int m * u\<bar> < u / 2" using near by (simp add: u_def)
  then have a: "q - of_int m * u < u / 2" "- (q - of_int m * u) < u / 2"
    by (simp_all only: abs_less_iff)
  have d: "(q - of_int m * u) / u = q / u - of_int m"
    using u by (simp add: diff_divide_distrib)
  have "(q - of_int m * u) / u < 1 / 2"
    using a(1) u by (simp only: pos_divide_less_eq)
  moreover have "- (1 / 2) < (q - of_int m * u) / u"
    using a(2) u by (simp only: pos_less_divide_eq) simp
  ultimately have b: "q / u < of_int m + 1 / 2" "of_int m - 1 / 2 < q / u"
    unfolding d by linarith+
  have "round_half_even (q / u) \<le> m" using b(1) by (rule rhe_le_half)
  moreover have "m \<le> round_half_even (q / u)" using b(2) by (rule rhe_ge_half)
  ultimately have "round_half_even (q / u) = m" by simp
  then show ?thesis
    using round64_Finite [OF fin] by (simp add: ue u_def)
qed

lemma round64_sin1_cos1: "round64 (sin_1 * cos_1) = Finite sincos_1"
  using round64_nearest [where e = "- 2" and m = 8190223105242183 and q = "sin_1 * cos_1"]
  by (simp add: sin_1_def cos_1_def sincos_1_def)

lemma round64_sincos_1: "round64 sincos_1 = Finite sincos_1"
  using round64_nearest [where e = "- 2" and m = 8190223105242183 and q = sincos_1]
  by (simp add: sincos_1_def)

lemma round64_half_sincos_1: "round64 (sincos_1 / 2) = Finite (sincos_1 / 2)"
  using round64_nearest [where e = "- 3" and m = 8190223105242183 and q = "sincos_1 / 2"]
  by (simp add: sincos_1_def)

lemma round64_twice_huge: "round64 (2 * huge) = PInf"
  by (simp add: round64_def overflow_threshold_def huge_def)

lemma half_pi_neq [simp]: "half_pi \<noteq> 0" "half_pi \<noteq> 1"
  by (simp_all add: half_pi_def)

lemma round64_half_pi: "round64 half_pi = Finite half_pi"
  using round64_nearest [where e = 0 and m = 7074237752028440 and q = half_pi]
  by (simp add: half_pi_def)

lemma round64_cos_half_pi: "round64 cos_half_pi = Finite cos_half_pi"
  using round64_nearest [where e = "- 54" and m = 4967757600021511 and q = cos_half_pi]
  by (simp add: cos_half_pi_def)

lemma round64_half_cos_half_pi: "round64 (cos_half_pi / 2) = Finite (cos_half_pi / 2)"
  using round64_nearest [where e = "- 55" and m = 4967757600021511 and q = "cos_half_pi / 2"]
  by (simp add: cos_half_pi_def)

lemma round64_trapezoid_half_pi:
  "round64 (cos_half_pi * half_pi / 2) = Finite trapezoid_half_pi"
  using round64_nearest [where e = "- 55" and m = 7803335390521220
      and q = "cos_half_pi * half_pi / 2"]
  by (simp add: cos_half_pi_def half_pi_def trapezoid_half_pi_def)

section \<open>Arithmetic at zero\<close>

lemma fmul_zero_left: "fmul (Finite 0) x = (case x of Finite q \<Rightarrow> Finite 0 | _ \<Rightarrow> NaN)"
  by (cases x) simp_all

lemma fmul_zero_right: "fmul x (Finite 0) = (case x of Finite q \<Rightarrow> Finite 0 | _ \<Rightarrow> NaN)"
  by (cases x) simp_all

lemma fdiv_by_zero: "fdiv x (Finite 0) \<in> {PInf, NInf, NaN}"
  by (cases x) simp_all

lemma float_of_int_zero [simp]: "float_of_int 0 = Inr (Finite 0)"
  by (simp add: float_of_int_def)

lemma py_truediv_zero: "py_truediv x 0 = Inl ZeroDivisionError"
  by (simp add: py_truediv_def)

section \<open>Loops that do not run\<close>

declare python_loop.simps [simp del]
declare cython_loop.simps [simp del]

lemma python_loop_empty: "N \<le> 0 \<Longrightarrow> python_loop L a dx N 0 s = Inr s"
  by (simp add: python_loop.simps)

lemma cython_loop_empty: "sint N \<le> 0 \<Longrightarrow> cython_loop f a dx N 0 s = Inr s"
  by (simp add: cython_loop.simps)

lemma integrate_empty:
  "sint N \<le> 0 \<Longrightarrow>
   integrate L a b N = Inr (fmul (Finite 0) (fdiv (fsub b a) (double_of_int32 N)))"
  by (simp add: integrate_def Let_def cython_loop_empty)

lemma integrate_zero: "integrate L a b 0 = Inr NaN"
proof -
  have "fmul (Finite 0) (fdiv (fsub b a) (Finite 0)) = NaN"
    using fdiv_by_zero [of "fsub b a"] by (auto simp: fmul_zero_left)
  then show ?thesis
    by (simp add: integrate_empty double_of_int32_def)
qed

section \<open>Conversions and the integrand\<close>

lemma index_in_range:
  assumes "0 \<le> i" "i < N" "of_int N < overflow_threshold"
  shows "\<bar>of_int i :: rat\<bar> < overflow_threshold"
proof -
  have "(of_int i :: rat) < of_int N" using assms(2) by (simp only: of_int_less_iff)
  moreover have "(0::rat) \<le> of_int i" using assms(1) by simp
  ultimately show ?thesis using assms(3) by linarith
qed

lemma upt_int_step:
  assumes "0 \<le> i" "i < N"
  shows "[nat i..<nat N] = nat i # [nat (i + 1)..<nat N]"
proof -
  have "nat i < nat N" using assms by simp
  moreover have "nat (i + 1) = Suc (nat i)" using assms(1) by (simp add: nat_add_distrib)
  ultimately show ?thesis by (simp only: upt_conv_Cons)
qed

lemma ex_from_step:
  assumes "m < n"
  shows "(\<exists>j. m \<le> j \<and> j < n \<and> P j) \<longleftrightarrow> P m \<or> (\<exists>j. Suc m \<le> j \<and> j < n \<and> P j)"
proof
  assume "\<exists>j. m \<le> j \<and> j < n \<and> P j"
  then obtain j where j: "m \<le> j" "j < n" "P j" by blast
  show "P m \<or> (\<exists>j. Suc m \<le> j \<and> j < n \<and> P j)"
  proof (cases "j = m")
    case True
    then show ?thesis using j by simp
  next
    case False
    then have "Suc m \<le> j" using j(1) by simp
    then show ?thesis using j by blast
  qed
next
  assume "P m \<or> (\<exists>j. Suc m \<le> j \<and> j < n \<and> P j)"
  then show "\<exists>j. m \<le> j \<and> j < n \<and> P j"
    using assms by (auto intro: Suc_leD)
qed

lemma float_of_int_in_range:
  assumes "\<bar>of_int n :: rat\<bar> < overflow_threshold"
  shows "float_of_int n = Inr (round64 (of_int n))"
  using round64_Finite [OF assms] by (simp add: float_of_int_def)

lemma float_of_int_overflow:
  assumes "overflow_threshold \<le> \<bar>of_int n :: rat\<bar>"
  shows "float_of_int n = Inl OverflowError"
proof -
  have "(0::rat) < overflow_threshold" by (simp add: overflow_threshold_def)
  then have "(of_int n :: rat) \<noteq> 0" using assms by auto
  then show ?thesis using assms by (simp add: float_of_int_def round64_def)
qed

lemma py_truediv_in_range:
  assumes "n \<noteq> 0" "\<bar>of_int n :: rat\<bar> < overflow_threshold"
  shows "py_truediv x n = Inr (fdiv x (round64 (of_int n)))"
proof -
  obtain r where r: "round64 (of_int n) = Finite r"
    using round64_Finite [OF assms(2)] by blast
  have "r \<noteq> 0" using assms(1) r by (rule round64_int_nonzero)
  then show ?thesis
    by (simp add: py_truediv_def float_of_int_in_range [OF assms(2)] r)
qed

lemma fpy_eq:
  "fpy L x = (if is_infinite x then Inl ValueError else Inr (fmul (c_sin L x) (c_cos L x)))"
  by (cases x) (simp_all add: fpy_def math_sin_def math_cos_def c_sin_def c_cos_def is_infinite_def)

lemma f_types_eq:
  "f_types L x = (if is_infinite x then Inl ValueError else Inr (fmul (c_sin L x) (c_cos L x)))"
  by (cases x) (simp_all add: f_types_def math_sin_def math_cos_def c_sin_def c_cos_def is_infinite_def)

lemma python_loop_step:
  assumes "0 \<le> i" "i < N" "of_int N < overflow_threshold"
  shows "python_loop L a dx N i s =
     (if is_infinite (sample a dx (nat i)) then Inl ValueError
      else python_loop L a dx N (i + 1) (fadd s (term_at L a dx (nat i))))"
proof -
  have "py_int_mul i dx = Inr (fmul (round64 (of_int i)) dx)"
    using index_in_range [OF assms] by (simp add: py_int_mul_def float_of_int_in_range)
  moreover have "fadd a (fmul (round64 (of_int i)) dx) = sample a dx (nat i)"
    using assms(1) by (simp add: sample_def)
  ultimately show ?thesis
    using assms(2) by (subst python_loop.simps) (simp add: fpy_eq term_at_def)
qed

lemma python_loop_run:
  assumes "of_int N < overflow_threshold" "0 \<le> i" "i \<le> N"
  shows "python_loop L a dx N i s =
     (if \<exists>j. nat i \<le> j \<and> j < nat N \<and> is_infinite (sample a dx j) then Inl ValueError
      else Inr (foldl (\<lambda>s j. fadd s (term_at L a dx j)) s [nat i..<nat N]))"
  using assms(2,3)
proof (induction k \<equiv> "nat (N - i)" arbitrary: i s)
  case 0
  then have "i = N" by simp
  then show ?case by (subst python_loop.simps) simp
next
  case (Suc k)
  from Suc.hyps(2) have lt: "i < N" by linarith
  have k: "k = nat (N - (i + 1))" using Suc.hyps(2) by linarith
  have i1: "0 \<le> i + 1" "i + 1 \<le> N" using Suc.prems lt by simp_all
  have nat1: "nat (i + 1) = Suc (nat i)" using Suc.prems(1) by (simp add: nat_add_distrib)
  have ltn: "nat i < nat N" using lt Suc.prems(1) by simp
  note IH = Suc.hyps(1) [OF k i1]
  show ?case
    unfolding python_loop_step [OF Suc.prems(1) lt assms(1)] IH
      upt_int_step [OF Suc.prems(1) lt] ex_from_step [OF ltn, of "\<lambda>j. is_infinite (sample a dx j)"] nat1
    by (simp; blast)
qed


lemma left_sum_eq: "left_sum L a dx n = foldl (\<lambda>s j. fadd s (term_at L a dx j)) (Finite 0) [0..<n]"
  by (simp add: left_sum_def term_at_def)

lemma integrate_python_positive:
  assumes "1 \<le> N"
  shows "integrate_python L a b N =
     (if overflow_threshold \<le> of_int N then Inl OverflowError
      else if \<exists>j<nat N. is_infinite (sample a (fdiv (fsub b a) (round64 (of_int N))) j)
        then Inl ValueError
      else Inr (riemann_left L a b N))"
proof (cases "overflow_threshold \<le> (of_int N :: rat)")
  case True
  then have "overflow_threshold \<le> \<bar>of_int N :: rat\<bar>" by simp
  then show ?thesis
    using True by (simp add: integrate_python_def py_truediv_def float_of_int_overflow)
next
  case False
  then have lt: "(of_int N :: rat) < overflow_threshold" by simp
  have "(0::rat) \<le> of_int N" using assms by simp
  then have fin: "\<bar>of_int N :: rat\<bar> < overflow_threshold" using lt by simp
  have nz: "N \<noteq> 0" using assms by simp
  have z: "(0::int) \<le> 0" "0 \<le> N" using assms by simp_all
  show ?thesis
    using False
    by (simp add: integrate_python_def py_truediv_in_range [OF nz fin]
        python_loop_run [OF lt z] riemann_left_def left_sum_eq Let_def)
qed

section \<open>The Cython loop\<close>

lemma double_of_int32_round: "double_of_int32 i = round64 (of_int (sint i))"
proof -
  have "sint i < 2 ^ 31" "- (2 ^ 31) \<le> sint i"
    using sint_lt [of i] sint_ge [of i] by simp_all
  then have "\<bar>sint i\<bar> < 2 ^ 53" by simp
  from round64_int_exact [OF this] show ?thesis by (simp add: double_of_int32_def)
qed

lemma cython_loop_step:
  assumes "0 \<le> sint i" "sint i < sint N"
  shows "cython_loop f a dx N i s =
     (case f (sample a dx (nat (sint i))) of
        Inl e \<Rightarrow> Inl e
      | Inr y \<Rightarrow> cython_loop f a dx N (i + 1) (fadd s y))"
proof -
  have "fadd a (fmul (double_of_int32 i) dx) = sample a dx (nat (sint i))"
    using assms(1) by (simp add: sample_def double_of_int32_round)
  then show ?thesis
    using assms(2) by (subst cython_loop.simps) simp
qed

lemma cython_loop_run:
  assumes f: "\<And>x. f x = (if P x then Inl e else Inr (g x))"
    and "0 \<le> sint i" "sint i \<le> sint N"
  shows "cython_loop f a dx N i s =
     (if \<exists>j. nat (sint i) \<le> j \<and> j < nat (sint N) \<and> P (sample a dx j) then Inl e
      else Inr (foldl (\<lambda>s j. fadd s (g (sample a dx j))) s [nat (sint i)..<nat (sint N)]))"
  using assms(2,3)
proof (induction k \<equiv> "nat (sint N - sint i)" arbitrary: i s)
  case 0
  then have "\<not> sint i < sint N" by simp
  moreover have "sint i = sint N" using 0 by simp
  ultimately show ?case by (subst cython_loop.simps) simp
next
  case (Suc k)
  from Suc.hyps(2) have lt: "sint i < sint N" by linarith
  have s1: "sint (i + 1) = sint i + 1" using lt by (rule sint_succ_below)
  have k: "k = nat (sint N - sint (i + 1))" using Suc.hyps(2) s1 by linarith
  have i1: "0 \<le> sint (i + 1)" "sint (i + 1) \<le> sint N" using Suc.prems lt s1 by simp_all
  have nat1: "nat (sint i + 1) = Suc (nat (sint i))"
    using Suc.prems(1) by (simp add: nat_add_distrib)
  have ltn: "nat (sint i) < nat (sint N)" using lt Suc.prems(1) by simp
  note IH = Suc.hyps(1) [OF k i1]
  show ?case
    unfolding cython_loop_step [OF Suc.prems(1) lt] IH s1 f
      upt_int_step [OF Suc.prems(1) lt] ex_from_step [OF ltn, of "\<lambda>j. P (sample a dx j)"] nat1
    by (simp; blast)
qed

lemma cython_div_positive:
  "0 < sint N \<Longrightarrow> cython_div x N = Inr (fdiv x (round64 (of_int (sint N))))"
  by (auto simp: cython_div_def double_of_int32_round)

lemma cython_loop_libc:
  assumes "0 < sint N"
  shows "cython_loop (\<lambda>x. Inr (fmul (c_sin L x) (c_cos L x))) a dx N 0 (Finite 0) =
     Inr (left_sum L a dx (nat (sint N)))"
proof -
  have z: "0 \<le> sint (0 :: 32 word)" "sint (0 :: 32 word) \<le> sint N" using assms by simp_all
  show ?thesis
    using cython_loop_run [of "\<lambda>x. Inr (fmul (c_sin L x) (c_cos L x))" "\<lambda>x. False" undefined
        "\<lambda>x. fmul (c_sin L x) (c_cos L x)" 0 N a dx "Finite 0", OF _ z]
    by (simp add: left_sum_def)
qed

lemma cython_loop_types:
  assumes "0 < sint N"
  shows "cython_loop (f_types L) a dx N 0 (Finite 0) =
     (if \<exists>j<nat (sint N). is_infinite (sample a dx j) then Inl ValueError
      else Inr (left_sum L a dx (nat (sint N))))"
proof -
  have z: "0 \<le> sint (0 :: 32 word)" "sint (0 :: 32 word) \<le> sint N" using assms by simp_all
  show ?thesis
    using cython_loop_run [of "f_types L" is_infinite ValueError
        "\<lambda>x. fmul (c_sin L x) (c_cos L x)" 0 N a dx "Finite 0", OF f_types_eq z]
    by (simp add: left_sum_def)
qed

section \<open>The Cython functions on a positive count\<close>

lemma f_libc_eq: "(\<lambda>x. Inr (f_libc L x)) = (\<lambda>x. Inr (fmul (c_sin L x) (c_cos L x)))"
  by (simp add: f_libc_def)

lemma f_cfun_eq: "(\<lambda>x. Inr (f_cfun L x)) = (\<lambda>x. Inr (fmul (c_sin L x) (c_cos L x)))"
  by (simp add: f_cfun_def)

lemma integrate_cython_libc_positive:
  assumes "0 < sint N"
  shows "integrate_cython_libc L a b N = Inr (riemann_left L a b (sint N))"
  using assms
  by (simp add: integrate_cython_libc_def cython_div_positive f_libc_eq cython_loop_libc
      riemann_left_def Let_def)

lemma integrate_cython_cfun_positive:
  assumes "0 < sint N"
  shows "integrate_cython_cfun L a b N = Inr (riemann_left L a b (sint N))"
  using assms
  by (simp add: integrate_cython_cfun_def cython_div_positive f_cfun_eq cython_loop_libc
      riemann_left_def Let_def)

lemma integrate_positive:
  assumes "0 < sint N"
  shows "integrate L a b N = Inr (riemann_left L a b (sint N))"
  using assms
  by (simp add: integrate_def double_of_int32_round f_cfun_eq cython_loop_libc
      riemann_left_def Let_def)

lemma integrate_cython_types_positive:
  assumes "0 < sint N"
  shows "integrate_cython_types L a b N =
     (if \<exists>j<nat (sint N). is_infinite (sample a (fdiv (fsub b a) (round64 (of_int (sint N)))) j)
        then Inl ValueError
      else Inr (riemann_left L a b (sint N)))"
  using assms
  by (simp add: integrate_cython_types_def cython_div_positive cython_loop_types
      riemann_left_def Let_def)



section \<open>Negative counts\<close>

lemma round64_minus_two [simp]: "round64 (- 2) = Finite (- 2)"
  using round64_int_exact [of "- 2"] by simp

lemma integrate_python_negative:
  assumes "N < 0" "- overflow_threshold < of_int N"
  shows "integrate_python L a b N =
     Inr (case fdiv (fsub b a) (round64 (of_int N)) of Finite d \<Rightarrow> Finite 0 | _ \<Rightarrow> NaN)"
proof -
  have "(of_int N :: rat) < 0" using assms(1) by simp
  then have fin: "\<bar>of_int N :: rat\<bar> < overflow_threshold" using assms(2) by simp
  have nz: "N \<noteq> 0" using assms(1) by simp
  have "N \<le> 0" using assms(1) by simp
  then show ?thesis
    by (simp add: integrate_python_def py_truediv_in_range [OF nz fin] python_loop_empty
        fmul_zero_left)
qed

lemma fdiv_int_finite:
  assumes "N \<noteq> 0" "\<bar>of_int N :: rat\<bar> < overflow_threshold" "\<bar>x\<bar> < overflow_threshold"
  shows "\<exists>d. fdiv (Finite x) (round64 (of_int N)) = Finite d"
proof -
  have "(1::rat) \<le> of_int \<bar>N\<bar>" using assms(1) by (simp flip: of_int_abs)
  then have "2 powi 0 \<le> \<bar>of_int N :: rat\<bar>" by simp
  from round64_abs_ge [OF _ this assms(2)]
  obtain r where r: "round64 (of_int N) = Finite r" "1 \<le> \<bar>r\<bar>" by auto
  have rz: "r \<noteq> 0" using r(2) by auto
  have "\<bar>x\<bar> / \<bar>r\<bar> \<le> \<bar>x\<bar> / 1"
    using r(2) by (intro divide_left_mono) simp_all
  then have "\<bar>x / r\<bar> < overflow_threshold" using assms(3) by simp
  from round64_Finite [OF this] show ?thesis by (simp add: r(1) rz)
qed

text \<open>The standalone function called from Python, and the base Python function, on a
  count that is zero or negative.\<close>

lemma sint_word_of_int_32:
  assumes "- (2 ^ 31) \<le> N" "N < 2 ^ 31"
  shows "sint (word_of_int N :: 32 word) = N"
  using assms by (simp add: sint_sbintrunc' signed_take_bit_int_eq_self)

lemma integrate_call_nonpositive:
  assumes "- (2 ^ 31) \<le> N" "N \<le> 0"
  shows "integrate_call L a b N =
     Inr (if N = 0 then NaN
          else case fdiv (fsub b a) (Finite (of_int N)) of Finite d \<Rightarrow> Finite 0 | _ \<Rightarrow> NaN)"
proof (cases "N = 0")
  case True
  then show ?thesis by (simp add: integrate_call_def integrate_zero)
next
  case False
  have r: "N < 2 ^ 31" using assms(2) by simp
  have s: "sint (word_of_int N :: 32 word) = N"
    using assms(1) r by (rule sint_word_of_int_32)
  then have "sint (word_of_int N :: 32 word) \<le> 0" using assms(2) by simp
  then have "integrate L a b (word_of_int N) =
      Inr (fmul (Finite 0) (fdiv (fsub b a) (double_of_int32 (word_of_int N))))"
    by (rule integrate_empty)
  moreover have "double_of_int32 (word_of_int N) = Finite (of_int N)"
    unfolding double_of_int32_def s ..
  ultimately show ?thesis
    using assms(1) r False by (simp add: integrate_call_def fmul_zero_left)
qed

lemma integrate_python_nonpositive:
  assumes "N \<le> 0"
  shows "integrate_python L a b N =
     (if N = 0 then Inl ZeroDivisionError
      else if of_int N \<le> - overflow_threshold then Inl OverflowError
      else Inr (case fdiv (fsub b a) (round64 (of_int N)) of
                  Finite d \<Rightarrow> Finite 0 | _ \<Rightarrow> NaN))"
proof -
  consider "N = 0" | "N < 0" "(of_int N :: rat) \<le> - overflow_threshold"
    | "N < 0" "- overflow_threshold < (of_int N :: rat)"
    using assms by fastforce
  then show ?thesis
  proof cases
    case 1
    then show ?thesis by (simp add: integrate_python_def py_truediv_zero)
  next
    case 2
    then have "overflow_threshold \<le> \<bar>of_int N :: rat\<bar>" by simp
    then have "float_of_int N = Inl OverflowError" by (rule float_of_int_overflow)
    then show ?thesis using 2 by (simp add: integrate_python_def py_truediv_def)
  next
    case 3
    then show ?thesis by (simp add: integrate_python_negative)
  qed
qed

section \<open>Bounded accumulation\<close>

lemma round64_accumulate:
  assumes s: "\<bar>s\<bar> \<le> 2 ^ 54" and t: "\<bar>t\<bar> \<le> 1"
  shows "\<exists>r. round64 (s + t) = Finite r \<and> \<bar>r\<bar> \<le> 2 ^ 54"
proof (cases "\<bar>s + t\<bar> \<le> 2 ^ 54")
  case True
  then have "\<bar>s + t\<bar> \<le> 2 powi 54" by simp
  from round64_abs_le [OF _ _ this] show ?thesis by simp
next
  case False
  then have lo: "2 ^ 54 < \<bar>s + t\<bar>" by simp
  have hi: "\<bar>s + t\<bar> \<le> 2 ^ 54 + 1" using s t by linarith
  have b: "2 powi 54 \<le> \<bar>s + t\<bar>" "\<bar>s + t\<bar> < 2 powi (54 + 1)"
    using lo hi by simp_all
  show ?thesis
  proof (cases "0 < s + t")
    case True
    then have "\<bar>s + t - of_int (2 ^ 52) * 2 powi (54 - 52)\<bar> < 2 powi (54 - 52) / 2"
      using lo hi by simp
    from round64_nearest [OF _ _ b this] show ?thesis by simp
  next
    case False
    then have "\<bar>s + t - of_int (- (2 ^ 52)) * 2 powi (54 - 52)\<bar> < 2 powi (54 - 52) / 2"
      using lo hi by simp
    from round64_nearest [OF _ _ b this] show ?thesis by simp
  qed
qed

lemma foldl_bounded:
  assumes "\<forall>j\<in>set xs. \<exists>t. g j = Finite t \<and> \<bar>t\<bar> \<le> 1" and "\<bar>s\<bar> \<le> 2 ^ 54"
  shows "\<exists>r. foldl (\<lambda>s j. fadd s (g j)) (Finite s) xs = Finite r \<and> \<bar>r\<bar> \<le> 2 ^ 54"
  using assms
proof (induction xs arbitrary: s)
  case Nil
  then show ?case by simp
next
  case (Cons x xs)
  then obtain t where t: "g x = Finite t" "\<bar>t\<bar> \<le> 1" by auto
  obtain r where r: "round64 (s + t) = Finite r" "\<bar>r\<bar> \<le> 2 ^ 54"
    using round64_accumulate [OF Cons.prems(2) t(2)] by blast
  have "\<forall>j\<in>set xs. \<exists>t. g j = Finite t \<and> \<bar>t\<bar> \<le> 1" using Cons.prems(1) by simp
  from Cons.IH [OF this r(2)] show ?case by (simp add: t r)
qed

lemma max_double_less_threshold: "max_double < overflow_threshold"
  by (simp add: max_double_def overflow_threshold_def)

lemma sample_zero_step:
  assumes "\<bar>of_nat j :: rat\<bar> < overflow_threshold"
  shows "sample (Finite q) (Finite 0) j = round64 q"
proof -
  obtain r where "round64 (of_nat j) = Finite r"
    using round64_Finite [OF assms] by blast
  then show ?thesis by (simp add: sample_def)
qed

lemma term_bounded:
  assumes "libm_bounded L"
  shows "\<exists>t. fmul (c_sin L (Finite q)) (c_cos L (Finite q)) = Finite t \<and> \<bar>t\<bar> \<le> 1"
proof -
  have "\<bar>libm_sin L q\<bar> \<le> 1" "\<bar>libm_cos L q\<bar> \<le> 1"
    using assms by (simp_all add: libm_bounded_def)
  then have "\<bar>libm_sin L q\<bar> * \<bar>libm_cos L q\<bar> \<le> 1 * 1"
    by (intro mult_mono) simp_all
  then have "\<bar>libm_sin L q * libm_cos L q\<bar> \<le> 2 powi 0"
    by (simp add: abs_mult)
  from round64_abs_le [OF _ _ this] show ?thesis
    by (simp add: c_sin_def c_cos_def)
qed

lemma integrate_python_zero_width:
  assumes L: "libm_bounded L" and a: "finite_double a"
    and N: "1 \<le> N" "of_int N < overflow_threshold"
  shows "integrate_python L a a N = Inr (Finite 0)"
proof -
  obtain q where q: "a = Finite q" "\<bar>q\<bar> \<le> max_double"
    using a by (cases a) (simp_all add: finite_double_def)
  have "\<bar>q\<bar> < overflow_threshold" using q(2) max_double_less_threshold by linarith
  then obtain q' where q': "round64 q = Finite q'"
    using round64_Finite by blast
  have finN: "\<bar>of_int N :: rat\<bar> < overflow_threshold" using N by simp
  obtain r where r: "round64 (of_int N) = Finite r"
    using round64_Finite [OF finN] by blast
  have "N \<noteq> 0" using N(1) by simp
  then have rz: "r \<noteq> 0" using r by (rule round64_int_nonzero)
  have dx: "fdiv (fsub a a) (round64 (of_int N)) = Finite 0"
    by (simp add: q fsub_def r rz)
  have smp: "sample a (Finite 0) j = Finite q'" if "j < nat N" for j
  proof -
    have "int j < N" using that by simp
    then have "(of_int (int j) :: rat) < of_int N" by (simp only: of_int_less_iff)
    then have "\<bar>of_nat j :: rat\<bar> < overflow_threshold" using N(2) by simp
    then show ?thesis by (simp add: q(1) sample_zero_step q')
  qed
  have inf: "\<not> (\<exists>j<nat N. is_infinite (sample a (Finite 0) j))"
    by (simp add: smp is_infinite_def)
  have "\<forall>j\<in>set [0..<nat N]. \<exists>t. term_at L a (Finite 0) j = Finite t \<and> \<bar>t\<bar> \<le> 1"
    using term_bounded [OF L] by (simp add: term_at_def smp)
  moreover have "\<bar>0 :: rat\<bar> \<le> 2 ^ 54" by simp
  ultimately obtain s where s: "left_sum L a (Finite 0) (nat N) = Finite s"
    unfolding left_sum_eq using foldl_bounded by blast
  have val: "riemann_left L a a N = Finite 0"
    by (simp add: riemann_left_def Let_def dx s)
  have "\<not> overflow_threshold \<le> (of_int N :: rat)" using N(2) by simp
  then show ?thesis
    using inf by (simp add: integrate_python_positive [OF N(1)] dx val)
qed

lemma libm_table_bounded: "libm_bounded libm_table"
  by (simp add: libm_bounded_def libm_table_def sin_1_def cos_1_def cos_half_pi_def)

section \<open>Concrete runs\<close>

lemma sample_0: "sample a dx 0 = fadd a (fmul (Finite 0) dx)"
  by (simp add: sample_def)

lemma sample_1: "sample a dx (Suc 0) = fadd a (fmul (Finite 1) dx)"
  by (simp add: sample_def)

lemma one_less_threshold: "1 < overflow_threshold" "2 < overflow_threshold"
  by (simp_all add: overflow_threshold_def)

text \<open>Bounds 0 and 2 with two bins: the sample points are 0 and 1, \<open>dx = 1\<close>, and the
  result is \<open>(0 + sin(1) * cos(1)) * 1\<close>.\<close>

lemma samples_0_2_finite:
  "\<forall>j<2. \<not> is_infinite (sample (Finite 0) (fdiv (fsub (Finite 2) (Finite 0)) (Finite 2)) j)"
  by (simp add: fsub_def less_Suc_eq numeral_2_eq_2 sample_0 sample_1 is_infinite_def)

lemma riemann_left_0_2: "riemann_left libm_table (Finite 0) (Finite 2) 2 = Finite sincos_1"
  unfolding riemann_left_def Let_def
  by (simp add: fsub_def left_sum_def numeral_2_eq_2 sample_0 sample_1 c_sin_def c_cos_def
      libm_table_def round64_sin1_cos1 round64_sincos_1)

text \<open>Bounds \<open>-2 ^ 1023\<close> and \<open>2 ^ 1023\<close> with two bins: \<open>b - a\<close> overflows, \<open>dx\<close> is
  \<open>inf\<close>, the sample points are NaN and \<open>inf\<close>.\<close>

lemma huge_sample_infinite:
  "\<exists>j<2. is_infinite
     (sample (Finite (- huge)) (fdiv (fsub (Finite huge) (Finite (- huge))) (Finite 2)) j)"
proof -
  have "is_infinite
     (sample (Finite (- huge)) (fdiv (fsub (Finite huge) (Finite (- huge))) (Finite 2)) (Suc 0))"
    by (simp add: fsub_def round64_twice_huge sample_1 is_infinite_def)
  then show ?thesis
    by (intro exI [of _ "Suc 0"]) simp
qed

lemma integrate_python_huge:
  "integrate_python libm_table (Finite (- huge)) (Finite huge) 2 = Inl ValueError"
proof -
  have "\<not> overflow_threshold \<le> (2 :: rat)"
    using one_less_threshold(2) by simp
  then show ?thesis
    using huge_sample_infinite by (simp add: integrate_python_positive)
qed


lemma integrate_python_too_many:
  "integrate_python L a b (2 ^ 1024) = Inl OverflowError"
proof -
  have "overflow_threshold \<le> (of_int (2 ^ 1024) :: rat)"
    by (simp add: overflow_threshold_def)
  then show ?thesis
    by (simp add: integrate_python_positive)
qed

text \<open>Bounds 0 and 1 with one bin: the only sample point is 0.\<close>

lemma integrate_python_0_1:
  "integrate_python libm_table (Finite 0) (Finite 1) 1 = Inr (Finite 0)"
proof -
  have "\<not> overflow_threshold \<le> (1 :: rat)"
    using one_less_threshold(1) by simp
  moreover have "riemann_left libm_table (Finite 0) (Finite 1) 1 = Finite 0"
    unfolding riemann_left_def Let_def
    by (simp add: fsub_def left_sum_def sample_0 c_sin_def c_cos_def libm_table_def)
  ultimately show ?thesis
    by (simp add: integrate_python_positive fsub_def sample_0 is_infinite_def)
qed

lemma trapezoid_0_1:
  "trapezoid_sum libm_table (Finite 0) (Finite 1) 1 = Finite (sincos_1 / 2)"
  unfolding trapezoid_sum_def Let_def
  by (simp add: fsub_def f_libc_def c_sin_def c_cos_def libm_table_def round64_sin1_cos1
      round64_sincos_1 round64_half_sincos_1)

text \<open>Bounds 0 and \<open>1.5707963267948966\<close> with one bin.\<close>

lemma integrate_python_single_bin:
  assumes "libm_sin L 0 = 0"
  shows "integrate_python L (Finite 0) (Finite half_pi) 1 = Inr (Finite 0)"
proof -
  have dx: "fdiv (fsub (Finite half_pi) (Finite 0)) (round64 (of_int 1)) = Finite half_pi"
    by (simp add: fsub_def round64_half_pi)
  have "\<not> overflow_threshold \<le> (of_int 1 :: rat)"
    using one_less_threshold(1) by simp
  moreover have "\<not> (\<exists>j<nat 1. is_infinite
      (sample (Finite 0) (fdiv (fsub (Finite half_pi) (Finite 0)) (round64 (of_int 1))) j))"
    unfolding dx by (simp add: sample_0 is_infinite_def)
  moreover have "riemann_left L (Finite 0) (Finite half_pi) 1 = Finite 0"
    unfolding riemann_left_def Let_def dx
    by (simp add: left_sum_def sample_0 c_sin_def c_cos_def assms)
  ultimately show ?thesis
    by (simp add: integrate_python_positive)
qed

lemma trapezoid_0_half_pi:
  "trapezoid_sum libm_table (Finite 0) (Finite half_pi) 1 = Finite trapezoid_half_pi"
  unfolding trapezoid_sum_def Let_def
  by (simp add: fsub_def f_libc_def c_sin_def c_cos_def libm_table_def round64_half_pi
      round64_cos_half_pi round64_half_cos_half_pi round64_trapezoid_half_pi)

text \<open>Bounds 0 and 1 with one bin: the only sample point is 0.\<close>

lemma riemann_left_0_1: "riemann_left libm_table (Finite 0) (Finite 1) 1 = Finite 0"
  unfolding riemann_left_def Let_def
  by (simp add: fsub_def left_sum_def sample_0 c_sin_def c_cos_def libm_table_def)

lemma sample_0_1_finite:
  "\<not> (\<exists>j<nat (sint (1 :: 32 word)). is_infinite
     (sample (Finite 0) (fdiv (fsub (Finite 1) (Finite 0)) (round64 (of_int (sint (1 :: 32 word))))) j))"
  by (simp add: fsub_def sample_0 is_infinite_def)

section \<open>The integral over a quarter period\<close>

text \<open>The bounds are 0 and \<open>1.5707963267948966\<close>, as in the notebook's test case, and the
  count is between 1000 and 500000.  The accumulator is compared with \<open>exact_sum\<close>, and
  \<open>exact_sum\<close> times the step with \<open>1/2\<close>, the integral of \<open>sin(x) * cos(x)\<close> from 0 to
  \<open>pi/2\<close>.\<close>

subsection \<open>The error of one rounding\<close>

lemma rhe_error: "\<bar>of_int (round_half_even q) - q\<bar> \<le> 1 / 2"
proof -
  have f: "of_int \<lfloor>q\<rfloor> \<le> q" "q < of_int \<lfloor>q\<rfloor> + 1"
    by linarith+
  show ?thesis
    using f by (auto simp: round_half_even_def Let_def abs_le_iff)
qed

lemma round64_error:
  assumes k: "- 1022 \<le> k" "k \<le> 1023" and q: "\<bar>q\<bar> \<le> 2 powi k"
  shows "\<exists>r. round64 q = Finite r \<and> \<bar>r - q\<bar> \<le> 2 powi (k - 53) \<and> \<bar>r\<bar> \<le> 2 powi k"
proof (cases "q = 0")
  case True
  then show ?thesis by simp
next
  case False
  obtain r where r: "round64 q = Finite r" "\<bar>r\<bar> \<le> 2 powi k"
    using round64_abs_le [OF k q] by blast
  have "(2::rat) powi k \<le> 2 powi 1023"
    using k by (intro power_int_increasing) simp_all
  then have fin: "\<bar>q\<bar> < overflow_threshold"
    using q pow2_1023_less_threshold by linarith
  define u :: rat where "u = 2 powi ulp_exp q"
  have u: "0 < u" unfolding u_def by (rule zero_less_power_int) simp
  have "binade q \<le> k" using False q by (rule binade_le)
  then have "ulp_exp q \<le> k - 52" using k by (simp add: ulp_exp_def)
  then have "u \<le> 2 powi (k - 52)"
    unfolding u_def by (intro power_int_increasing) simp_all
  also have "(2::rat) powi (k - 52) = 2 * 2 powi (k - 53)"
    using power_int_add [of "2::rat" 1 "k - 53"] by simp
  finally have uk: "u / 2 \<le> 2 powi (k - 53)" by simp
  have req: "r = of_int (round_half_even (q / u)) * u"
    using round64_Finite [OF fin] r(1) by (simp add: u_def)
  have "r - q = (of_int (round_half_even (q / u)) - q / u) * u"
    using u by (simp add: req algebra_simps)
  then have "\<bar>r - q\<bar> = \<bar>of_int (round_half_even (q / u)) - q / u\<bar> * u"
    using u by (simp add: abs_mult)
  also have "\<dots> \<le> 1 / 2 * u"
    using rhe_error [of "q / u"] u by (intro mult_right_mono) simp_all
  finally have "\<bar>r - q\<bar> \<le> 2 powi (k - 53)" using uk by simp
  then show ?thesis using r by blast
qed

lemma abs_of_rat: "\<bar>of_rat x :: real\<bar> = of_rat \<bar>x\<bar>"
  by (simp add: abs_if of_rat_minus)

lemma round_small:
  assumes "\<bar>q\<bar> \<le> 2"
  shows "\<exists>r. round64 q = Finite r \<and> \<bar>of_rat r - (of_rat q :: real)\<bar> \<le> 1 / 2 ^ 52 \<and> \<bar>r\<bar> \<le> 2"
proof -
  have "\<bar>q\<bar> \<le> 2 powi 1" using assms by simp
  from round64_error [OF _ _ this]
  obtain r where r: "round64 q = Finite r" "\<bar>r - q\<bar> \<le> 1 / 2 ^ 52" "\<bar>r\<bar> \<le> 2"
    by (auto simp: power_int_minus_divide)
  have "(of_rat \<bar>r - q\<bar> :: real) \<le> of_rat (1 / 2 ^ 52)"
    using r(2) by (simp only: of_rat_less_eq)
  then have "\<bar>of_rat r - (of_rat q :: real)\<bar> \<le> 1 / 2 ^ 52"
    by (simp add: abs_of_rat [symmetric] of_rat_diff of_rat_divide of_rat_power)
  then show ?thesis using r by blast
qed

lemma round_sum:
  assumes "\<bar>q\<bar> \<le> 2 ^ 20"
  shows "\<exists>r. round64 q = Finite r \<and> \<bar>of_rat r - (of_rat q :: real)\<bar> \<le> 1 / 2 ^ 33 \<and> \<bar>r\<bar> \<le> 2 ^ 20"
proof -
  have "\<bar>q\<bar> \<le> 2 powi 20" using assms by simp
  from round64_error [OF _ _ this]
  obtain r where r: "round64 q = Finite r" "\<bar>r - q\<bar> \<le> 1 / 2 ^ 33" "\<bar>r\<bar> \<le> 2 ^ 20"
    by (auto simp: power_int_minus_divide)
  have "(of_rat \<bar>r - q\<bar> :: real) \<le> of_rat (1 / 2 ^ 33)"
    using r(2) by (simp only: of_rat_less_eq)
  then have "\<bar>of_rat r - (of_rat q :: real)\<bar> \<le> 1 / 2 ^ 33"
    by (simp add: abs_of_rat [symmetric] of_rat_diff of_rat_divide of_rat_power)
  then show ?thesis using r by blast
qed

lemma sincos_lipschitz: "\<bar>sin x * cos x - sin y * cos y\<bar> \<le> \<bar>x - y\<bar>" for x y :: real
proof -
  have "sin (2 * x) - sin (2 * y) = 2 * sin ((2 * x - 2 * y) / 2) * cos ((2 * x + 2 * y) / 2)"
    by (rule sin_diff_sin)
  also have "(2 * x - 2 * y) / 2 = x - y" by simp
  also have "(2 * x + 2 * y) / 2 = x + y" by simp
  finally have "sin (2 * x) - sin (2 * y) = 2 * sin (x - y) * cos (x + y)" .
  then have "sin x * cos x - sin y * cos y = sin (x - y) * cos (x + y)"
    by (simp add: sin_double)
  moreover have "\<bar>sin (x - y) * cos (x + y)\<bar> \<le> \<bar>x - y\<bar> * 1"
    unfolding abs_mult
    by (intro mult_mono abs_sin_x_le_abs_x) simp_all
  ultimately show ?thesis by simp
qed

lemma term_accurate:
  assumes "libm_accurate L"
  shows "\<exists>t. fmul (c_sin L (Finite x)) (c_cos L (Finite x)) = Finite t \<and>
     \<bar>of_rat t - sin (of_rat x :: real) * cos (of_rat x)\<bar> \<le> 3 / 2 ^ 20 + 1 / 2 ^ 52 \<and>
     \<bar>t\<bar> \<le> 2"
proof -
  define s c where "s = libm_sin L x" and "c = libm_cos L x"
  define S C :: real where "S = sin (of_rat x)" and "C = cos (of_rat x)"
  define rs rc :: real where "rs = of_rat s" and "rc = of_rat c"
  have es: "\<bar>rs - S\<bar> \<le> 1 / 2 ^ 20" and ec: "\<bar>rc - C\<bar> \<le> 1 / 2 ^ 20"
    using assms by (simp_all add: libm_accurate_def s_def c_def S_def C_def rs_def rc_def)
  have S1: "\<bar>S\<bar> \<le> 1" and C1: "\<bar>C\<bar> \<le> 1" by (simp_all add: S_def C_def)
  have bs: "\<bar>rs\<bar> \<le> 1 + 1 / 2 ^ 20" and bc: "\<bar>rc\<bar> \<le> 1 + 1 / 2 ^ 20"
    using es ec S1 C1 by linarith+
  have "\<bar>rs * rc\<bar> \<le> (1 + 1 / 2 ^ 20) * (1 + 1 / 2 ^ 20)"
    unfolding abs_mult using bs bc by (intro mult_mono) simp_all
  then have "\<bar>rs * rc\<bar> \<le> 2" by simp
  then have "(of_rat \<bar>s * c\<bar> :: real) \<le> of_rat 2"
    by (simp add: abs_of_rat [symmetric] of_rat_mult rs_def rc_def)
  then have "\<bar>s * c\<bar> \<le> 2" by (simp only: of_rat_less_eq)
  from round_small [OF this]
  obtain t where t: "round64 (s * c) = Finite t"
    "\<bar>of_rat t - (of_rat (s * c) :: real)\<bar> \<le> 1 / 2 ^ 52" "\<bar>t\<bar> \<le> 2"
    by blast
  have split: "rs * rc - S * C = (rs - S) * rc + S * (rc - C)" by (simp add: algebra_simps)
  have "\<bar>(rs - S) * rc\<bar> \<le> 1 / 2 ^ 20 * (1 + 1 / 2 ^ 20)"
    unfolding abs_mult using es bc by (intro mult_mono) simp_all
  then have p1: "\<bar>(rs - S) * rc\<bar> \<le> 2 / 2 ^ 20" by simp
  have "\<bar>S * (rc - C)\<bar> \<le> 1 * (1 / 2 ^ 20)"
    unfolding abs_mult using S1 ec by (intro mult_mono) simp_all
  then have p2: "\<bar>S * (rc - C)\<bar> \<le> 1 / 2 ^ 20" by simp
  have "\<bar>(rs - S) * rc + S * (rc - C)\<bar> \<le> \<bar>(rs - S) * rc\<bar> + \<bar>S * (rc - C)\<bar>"
    by (rule abs_triangle_ineq)
  then have "\<bar>rs * rc - S * C\<bar> \<le> 3 / 2 ^ 20"
    unfolding split using p1 p2 by linarith
  moreover have "\<bar>of_rat t - rs * rc\<bar> \<le> 1 / 2 ^ 52"
    using t(2) by (simp only: of_rat_mult rs_def rc_def)
  ultimately have "\<bar>of_rat t - S * C\<bar> \<le> 3 / 2 ^ 20 + 1 / 2 ^ 52"
    by linarith
  then show ?thesis
    using t by (simp add: c_sin_def c_cos_def s_def c_def S_def C_def)
qed

subsection \<open>The step, the sample points and the accumulator\<close>

lemma step_accurate:
  assumes N: "1000 \<le> N" "N \<le> 500000"
  shows "\<exists>dx. fdiv (fsub (Finite half_pi) (Finite 0)) (round64 (of_int N)) = Finite dx \<and>
     \<bar>dx - half_pi / of_int N\<bar> \<le> 1 / 2 ^ 62"
proof -
  have "\<bar>N\<bar> < 2 ^ 53" using N by simp
  then have rN: "round64 (of_int N) = Finite (of_int N)" by (rule round64_int_exact)
  have N0: "(0 :: rat) < of_int N" and N1: "(1000 :: rat) \<le> of_int N" using N by simp_all
  define q where "q = half_pi / of_int N"
  have "q \<le> half_pi / 1000"
    unfolding q_def using N1 by (intro divide_left_mono) (simp_all add: half_pi_def)
  moreover have "half_pi / 1000 \<le> 1 / 512" by (simp add: half_pi_def)
  moreover have "0 \<le> q" unfolding q_def using N0 by (simp add: half_pi_def)
  ultimately have "\<bar>q\<bar> \<le> 1 / 512" by linarith
  moreover have "(2 :: rat) powi (- 9) = 1 / 512" by (simp add: power_int_minus_divide)
  ultimately have "\<bar>q\<bar> \<le> 2 powi (- 9)" by (simp only:)
  from round64_error [OF _ _ this]
  obtain dx where dx: "round64 q = Finite dx" "\<bar>dx - q\<bar> \<le> 1 / 2 ^ 62"
    by (auto simp: power_int_minus_divide)
  note dx = dx [unfolded q_def]
  have "fdiv (fsub (Finite half_pi) (Finite 0)) (round64 (of_int N)) = Finite dx"
    using N0 by (simp add: rN fsub_def round64_half_pi dx(1))
  then show ?thesis using dx(2) by blast
qed

lemma step_bounds:
  assumes N: "1000 \<le> N" "N \<le> 500000"
    and dx: "\<bar>dx - half_pi / of_int N\<bar> \<le> 1 / 2 ^ 62"
  shows "0 < dx" "\<bar>of_int N * dx - half_pi\<bar> \<le> 1 / 2 ^ 43" "of_int N * dx \<le> 16 / 10"
proof -
  have N0: "(0 :: rat) < of_int N" and N1: "(of_int N :: rat) \<le> 500000" using N by simp_all
  have "half_pi / 500000 \<le> half_pi / of_int N"
    using N0 N1 by (intro divide_left_mono) (simp_all add: half_pi_def)
  moreover have "1 / 2 ^ 62 < half_pi / 500000" by (simp add: half_pi_def)
  ultimately show "0 < dx" using dx by linarith
  have "of_int N * dx - half_pi = of_int N * (dx - half_pi / of_int N)"
    using N0 by (simp add: algebra_simps)
  then have "\<bar>of_int N * dx - half_pi\<bar> = of_int N * \<bar>dx - half_pi / of_int N\<bar>"
    using N0 by (simp add: abs_mult)
  also have "\<dots> \<le> 500000 * (1 / 2 ^ 62)"
    using N0 N1 dx by (intro mult_mono) simp_all
  also have "\<dots> \<le> 1 / 2 ^ 43" by simp
  finally show b: "\<bar>of_int N * dx - half_pi\<bar> \<le> 1 / 2 ^ 43" .
  have "half_pi + 1 / 2 ^ 43 \<le> 16 / 10" by (simp add: half_pi_def)
  then show "of_int N * dx \<le> 16 / 10" using b by linarith
qed

lemma left_sum_Suc:
  "left_sum L a dx (Suc n) = fadd (left_sum L a dx n) (term_at L a dx n)"
  by (simp add: left_sum_eq)

lemma sample_accurate:
  assumes "0 \<le> dx" "of_nat j * dx \<le> 2" "j \<le> 500000"
  shows "\<exists>x. sample (Finite 0) (Finite dx) j = Finite x \<and>
     \<bar>of_rat x - real j * of_rat dx\<bar> \<le> 1 / 2 ^ 51"
proof -
  have "\<bar>int j\<bar> < 2 ^ 53" using assms(3) by simp
  from round64_int_exact [OF this]
  have j: "round64 (of_nat j) = Finite (of_nat j)" by simp
  have "\<bar>of_nat j * dx\<bar> \<le> 2"
    using assms(1,2) by (simp add: abs_mult)
  from round_small [OF this]
  obtain v where v: "round64 (of_nat j * dx) = Finite v"
    "\<bar>of_rat v - (of_rat (of_nat j * dx) :: real)\<bar> \<le> 1 / 2 ^ 52" "\<bar>v\<bar> \<le> 2"
    by blast
  from round_small [OF v(3)]
  obtain x where x: "round64 v = Finite x"
    "\<bar>of_rat x - (of_rat v :: real)\<bar> \<le> 1 / 2 ^ 52"
    by blast
  have s: "sample (Finite 0) (Finite dx) j = Finite x"
    by (simp add: sample_def j v(1) x(1))
  have "(of_rat (of_nat j * dx) :: real) = real j * of_rat dx"
    by (simp add: of_rat_mult)
  then have "\<bar>of_rat v - real j * of_rat dx\<bar> \<le> 1 / 2 ^ 52"
    using v(2) by simp
  moreover have "(1::real) / 2 ^ 51 = 1 / 2 ^ 52 + 1 / 2 ^ 52" by simp
  ultimately have "\<bar>of_rat x - real j * of_rat dx\<bar> \<le> 1 / 2 ^ 51"
    using x(2) by linarith
  then show ?thesis using s by blast
qed

lemma step_error_le: "step_error \<le> 3 / 10 ^ 6" "0 \<le> step_error"
  by (simp_all add: step_error_def)

lemma exact_sum_Suc:
  "exact_sum D (Suc n) = exact_sum D n + sin (real n * D) * cos (real n * D)"
  by (simp add: exact_sum_def)

lemma exact_sum_le: "\<bar>exact_sum D n\<bar> \<le> real n"
proof (induction n)
  case 0
  then show ?case by (simp add: exact_sum_def)
next
  case (Suc n)
  have "\<bar>sin (real n * D) * cos (real n * D)\<bar> \<le> 1 * 1"
    unfolding abs_mult by (intro mult_mono) simp_all
  then show ?case using Suc by (simp add: exact_sum_Suc)
qed

lemma left_sum_accurate:
  assumes L: "libm_accurate L" and dx: "0 \<le> dx" "of_nat m * dx \<le> 2"
    and m: "m \<le> 500000" and n: "n \<le> m"
  shows "\<exists>s. left_sum L (Finite 0) (Finite dx) n = Finite s \<and>
     \<bar>of_rat s - exact_sum (of_rat dx) n\<bar> \<le> real n * step_error"
  using n
proof (induction n)
  case 0
  then show ?case by (simp add: left_sum_def exact_sum_def)
next
  case (Suc n)
  define D :: real where "D = of_rat dx"
  from Suc obtain s where s: "left_sum L (Finite 0) (Finite dx) n = Finite s"
    "\<bar>of_rat s - exact_sum D n\<bar> \<le> real n * step_error"
    unfolding D_def by auto
  have n: "n < 500000" "n \<le> 500000" using Suc.prems m by simp_all
  have "(of_nat n :: rat) \<le> of_nat m" using Suc.prems by simp
  then have "of_nat n * dx \<le> of_nat m * dx" using dx(1) by (rule mult_right_mono)
  then have "of_nat n * dx \<le> 2" using dx(2) by linarith
  from sample_accurate [OF dx(1) this n(2)]
  obtain x where x: "sample (Finite 0) (Finite dx) n = Finite x"
    "\<bar>of_rat x - real n * D\<bar> \<le> 1 / 2 ^ 51"
    unfolding D_def by blast
  obtain t where t: "fmul (c_sin L (Finite x)) (c_cos L (Finite x)) = Finite t"
    "\<bar>of_rat t - sin (of_rat x :: real) * cos (of_rat x)\<bar> \<le> 3 / 2 ^ 20 + 1 / 2 ^ 52"
    "\<bar>t\<bar> \<le> 2"
    using term_accurate [OF L] by blast
  have lip: "\<bar>sin (of_rat x :: real) * cos (of_rat x) -
      sin (real n * D) * cos (real n * D)\<bar> \<le> 1 / 2 ^ 51"
    using sincos_lipschitz [of "of_rat x" "real n * D"] x(2) by linarith
  have "real n * step_error \<le> 500000 * (3 / 10 ^ 6)"
    using n step_error_le by (intro mult_mono) simp_all
  then have "real n * step_error \<le> 2" by simp
  then have "\<bar>of_rat s :: real\<bar> \<le> real n + 2"
    using s(2) exact_sum_le [of D n] by linarith
  moreover have "\<bar>of_rat t :: real\<bar> \<le> 2"
    using t(3) by (simp add: abs_of_rat) (metis of_rat_less_eq of_rat_numeral_eq)
  moreover have "real n \<le> 499999" using n by simp
  moreover have "\<bar>of_rat s + of_rat t :: real\<bar> \<le> \<bar>of_rat s\<bar> + \<bar>of_rat t\<bar>"
    by (rule abs_triangle_ineq)
  moreover have "(2::real) ^ 20 = 1048576" by simp
  ultimately have "\<bar>of_rat s + of_rat t :: real\<bar> \<le> 2 ^ 20"
    by linarith
  then have "(of_rat \<bar>s + t\<bar> :: real) \<le> of_rat (2 ^ 20)"
    by (simp add: abs_of_rat [symmetric] of_rat_add)
  then have "\<bar>s + t\<bar> \<le> 2 ^ 20" by (simp only: of_rat_less_eq)
  from round_sum [OF this]
  obtain s' where s': "round64 (s + t) = Finite s'"
    "\<bar>of_rat s' - (of_rat (s + t) :: real)\<bar> \<le> 1 / 2 ^ 33"
    by blast
  have eq: "left_sum L (Finite 0) (Finite dx) (Suc n) = Finite s'"
    by (simp add: left_sum_Suc s(1) term_at_def x(1) t(1) s'(1))
  have "\<bar>of_rat s' - (of_rat s + of_rat t :: real)\<bar> \<le> 1 / 2 ^ 33"
    using s'(2) by (simp only: of_rat_add)
  then have "\<bar>of_rat s' - exact_sum D (Suc n)\<bar> \<le> real n * step_error + step_error"
    using s(2) t(2) lip unfolding exact_sum_Suc step_error_def by linarith
  then have "\<bar>of_rat s' - exact_sum D (Suc n)\<bar> \<le> real (Suc n) * step_error"
    by (simp add: algebra_simps)
  then show ?case using eq unfolding D_def by blast
qed

subsection \<open>The cosine near a quarter period\<close>

lemma cos_lipschitz: "\<bar>cos x - cos y\<bar> \<le> \<bar>x - y\<bar>" for x y :: real
proof -
  have "cos x - cos y = 2 * sin ((x + y) / 2) * sin ((y - x) / 2)"
    by (rule cos_diff_cos)
  moreover have "\<bar>sin ((x + y) / 2) * sin ((y - x) / 2)\<bar> \<le> 1 * \<bar>(y - x) / 2\<bar>"
    unfolding abs_mult by (intro mult_mono abs_sin_x_le_abs_x) simp_all
  ultimately show ?thesis by (simp add: abs_mult) 
qed

lemma cos_coeff_values:
  "cos_coeff 0 = 1" "cos_coeff 1 = 0" "cos_coeff 2 = - 1 / 2" "cos_coeff 3 = 0"
  "cos_coeff 4 = 1 / 24" "cos_coeff 5 = 0" "cos_coeff 6 = - 1 / 720" "cos_coeff 7 = 0"
  "cos_coeff 8 = 1 / 40320" "cos_coeff 9 = 0"
  by (simp_all add: cos_coeff_def fact_numeral)

lemma sum_upto_10:
  "(\<Sum>m<10. f m) = f 0 + f 1 + f 2 + f 3 + f 4 + f 5 + f 6 + f 7 + f 8 + f 9"
  for f :: "nat \<Rightarrow> real"
proof -
  have "{..<10 :: nat} = {0, 1, 2, 3, 4, 5, 6, 7, 8, 9}" by auto
  then show ?thesis by simp
qed

lemma cos_poly:
  "(\<Sum>m<10. cos_coeff m * x ^ m) =
     1 - x ^ 2 / 2 + x ^ 4 / 24 - x ^ 6 / 720 + x ^ 8 / 40320" for x :: real
  unfolding sum_upto_10 cos_coeff_values by simp

lemma cos_poly_near_half_pi:
  "\<bar>1 - x ^ 2 / 2 + x ^ 4 / 24 - x ^ 6 / 720 + x ^ 8 / 40320\<bar> \<le> 22 / 10 ^ 6"
  if "x = (15708 / 10000 :: real)"
  unfolding that by (simp add: power_divide)

lemma cos_remainder_near_half_pi:
  "(1 :: real) / fact 10 * x ^ 10 \<le> 26 / 10 ^ 6" if "x = (15708 / 10000 :: real)"
  unfolding that by (simp add: fact_numeral power_divide)

lemma cos_near_half_pi: "\<bar>cos (15708 / 10000 :: real)\<bar> \<le> 5 / 10 ^ 5"
proof -
  define x :: real where "x = 15708 / 10000"
  obtain t where t: "cos x = (\<Sum>m<10. cos_coeff m * x ^ m) +
      (cos (t + 1 / 2 * real 10 * pi) / fact 10) * x ^ 10"
    using Maclaurin_cos_expansion [of x 10] by blast
  have "0 \<le> x" by (simp add: x_def)
  have "\<bar>cos (t + 1 / 2 * real 10 * pi)\<bar> / fact 10 \<le> (1 :: real) / fact 10"
    by (intro divide_right_mono) simp_all
  then have "\<bar>cos (t + 1 / 2 * real 10 * pi) / fact 10\<bar> * \<bar>x ^ 10\<bar> \<le> 1 / fact 10 * x ^ 10"
    using \<open>0 \<le> x\<close> by (intro mult_mono) simp_all
  then have "\<bar>cos (t + 1 / 2 * real 10 * pi) / fact 10 * x ^ 10\<bar> \<le> 1 / fact 10 * x ^ 10"
    by (simp only: abs_mult)
  moreover have "(1 :: real) / fact 10 * x ^ 10 \<le> 26 / 10 ^ 6"
    using x_def by (rule cos_remainder_near_half_pi)
  moreover have "\<bar>\<Sum>m<10. cos_coeff m * x ^ m\<bar> \<le> 22 / 10 ^ 6"
    unfolding cos_poly using x_def by (rule cos_poly_near_half_pi)
  ultimately have "\<bar>cos x\<bar> \<le> 22 / 10 ^ 6 + 26 / 10 ^ 6"
    unfolding t by linarith
  then show ?thesis by (simp add: x_def)
qed

subsection \<open>The exact sum in closed form\<close>

lemma exact_sum_closed:
  "4 * sin D * exact_sum D n = cos D - cos ((2 * real n - 1) * D)"
proof (induction n)
  case 0
  then show ?case by (simp add: exact_sum_def)
next
  case (Suc n)
  define x where "x = real n * D"
  have "sin D * sin (2 * x) = (cos (D - 2 * x) - cos (D + 2 * x)) / 2"
    by (rule sin_times_sin)
  moreover have "cos (D - 2 * x) = cos (2 * x - D)"
    using cos_minus [of "2 * x - D"] by simp
  ultimately have "4 * sin D * (sin x * cos x) = cos (2 * x - D) - cos (2 * x + D)"
    by (simp add: sin_double add.commute)
  moreover have "2 * x - D = (2 * real n - 1) * D" "2 * x + D = (2 * real (Suc n) - 1) * D"
    by (simp_all add: x_def algebra_simps)
  ultimately have "4 * sin D * (sin x * cos x) =
      cos ((2 * real n - 1) * D) - cos ((2 * real (Suc n) - 1) * D)"
    by simp
  then show ?case
    using Suc unfolding exact_sum_Suc x_def [symmetric]
    by (simp only: distrib_left)
qed

lemma sin_cubic_bound: "x - x ^ 3 / 6 \<le> sin x" if "0 \<le> x" for x :: real
proof -
  have "{..<3 :: nat} = {0, 1, 2}" by auto
  then have "(\<Sum>m<3. sin_coeff m * x ^ m) = x"
    by (simp add: sin_coeff_def)
  then have "\<bar>sin x - x\<bar> \<le> inverse (fact 3) * \<bar>x\<bar> ^ 3"
    using Maclaurin_sin_bound [of x 3] by simp
  moreover have "inverse (fact 3 :: real) * \<bar>x\<bar> ^ 3 = x ^ 3 / 6"
    using that by (simp add: fact_numeral)
  ultimately have "\<bar>sin x - x\<bar> \<le> x ^ 3 / 6" by (simp only:)
  then show ?thesis by linarith
qed

lemma half_pi_real:
  "\<bar>(of_rat half_pi :: real) - 15708 / 10000\<bar> \<le> 4 / 1000000"
  "157 / 100 \<le> (of_rat half_pi :: real)"
  by (simp_all add: half_pi_def of_rat_divide)

lemma exact_integral:
  fixes D :: real
  assumes N: "1000 \<le> N" "N \<le> 500000"
    and D: "\<bar>real N * D - of_rat half_pi\<bar> \<le> 1 / 2 ^ 43"
  shows "\<bar>exact_sum D N * D - 1 / 2\<bar> \<le> 1 / real N"
proof -
  define n where "n = real N"
  define u where "u = 1 / n"
  define H :: real where "H = of_rat half_pi"
  define z where "z = (n - 1 / 2) * D"
  define S where "S = exact_sum D N"
  define C where "C = cos D - cos (2 * z)"
  define X where "X = S * D - 1 / 2"
  define R where "R = D * u"
  define P where "P = (C - 2) * D"
  define M where "M = n * D"
  have n: "1000 \<le> n" "n \<le> 500000" using N by (simp_all add: n_def)
  then have n0: "0 < n" by linarith
  have "1 / 500000 \<le> 1 / n" using n n0 by (intro divide_left_mono) simp_all
  moreover have "1 / n \<le> 1 / 1000" using n n0 by (intro divide_left_mono) simp_all
  ultimately have u: "1 / 500000 \<le> u" "u \<le> 1 / 1000"
    unfolding u_def by (simp_all only:)
  then have u0: "0 < u" "0 \<le> u" by linarith+
  note u = u u0
  have nu: "n * u = 1" using n0 by (simp add: u_def)
  have "(1 :: real) / 2 ^ 43 \<le> 1 / 1000000000000" by simp
  then have nD: "\<bar>M - H\<bar> \<le> 1 / 1000000000000"
    using D unfolding n_def H_def M_def by linarith
  have H: "\<bar>H - 15708 / 10000\<bar> \<le> 4 / 1000000" "157 / 100 \<le> H"
    unfolding H_def by (rule half_pi_real)+
  have M: "156 / 100 \<le> M" "M \<le> 16 / 10" using nD H by argo+
  then have "0 < n * D" unfolding M_def by linarith
  then have D0: "0 < D" using n0 by (simp add: zero_less_mult_iff)
  then have D0': "0 \<le> D" by simp
  have "D = M * u" unfolding M_def using nu by (simp add: algebra_simps)
  moreover have "M * u \<le> 16 / 10 * u" using M(2) u(4) by (rule mult_right_mono)
  ultimately have Du: "D \<le> 16 / 10 * u" by simp
  then have D3: "D \<le> 16 / 10000" using u by linarith
  have zeq: "z = M - D / 2" by (simp add: z_def M_def algebra_simps)
  have "\<bar>z - 15708 / 10000\<bar> \<le> 5 / 1000000 + D / 2"
    unfolding zeq using nD H(1) D0 by argo
  moreover have "\<bar>cos z - cos (15708 / 10000)\<bar> \<le> \<bar>z - 15708 / 10000\<bar>"
    by (rule cos_lipschitz)
  moreover have "\<bar>cos (15708 / 10000 :: real)\<bar> \<le> 5 / 100000"
    using cos_near_half_pi by simp
  ultimately have cz0: "\<bar>cos z\<bar> \<le> 55 / 1000000 + D / 2" by argo
  have cz1: "\<bar>cos z\<bar> \<le> 29 * u" using cz0 Du u by argo
  have cz2: "\<bar>cos z\<bar> \<le> 1 / 1000" using cz0 D3 by argo
  have "\<bar>cos z\<bar> * \<bar>cos z\<bar> \<le> 1 / 1000 * (29 * u)"
    using cz1 cz2 by (intro mult_mono) simp_all
  then have cz: "cos z ^ 2 \<le> 29 / 1000 * u" "0 \<le> cos z ^ 2"
    by (simp_all add: power2_eq_square)
  have c2: "cos (2 * z) = 2 * cos z ^ 2 - 1" by (rule cos_double_cos)
  have "\<bar>cos D - cos 0\<bar> \<le> \<bar>D - 0\<bar>" by (rule cos_lipschitz)
  then have cD: "\<bar>cos D - 1\<bar> \<le> D" using D0 by simp
  have C2: "\<bar>C - 2\<bar> \<le> 17 / 10 * u"
    unfolding C_def c2 using cD cz Du by argo
  have sD: "sin D \<le> D" using D0' by (rule sin_x_le_x)
  have cubic: "D - D ^ 3 / 6 \<le> sin D" using D0' by (rule sin_cubic_bound)
  have "D * D \<le> 16 / 10000 * (16 / 10 * u)"
    using D3 Du D0' by (intro mult_mono) simp_all
  then have "D * D / 6 \<le> u / 1000" using u(4) by simp
  then have "D * (D * D / 6) \<le> D * (u / 1000)"
    using D0' by (rule mult_left_mono)
  moreover have "D ^ 3 / 6 = D * (D * D / 6)" by (simp add: power3_eq_cube)
  moreover have "D * (u / 1000) = R / 1000" by (simp add: R_def)
  ultimately have sl: "D - R / 1000 \<le> sin D" using cubic by linarith
  have "D * u \<le> D * (1 / 1000)" using u(2) D0' by (rule mult_left_mono)
  then have R: "R \<le> D / 1000" "0 \<le> R" using D0' u(4) by (simp_all add: R_def)
  have sl2: "D / 2 \<le> sin D" using sl R D0 by argo
  have "(2 * real N - 1) * D = 2 * z" by (simp add: z_def n_def algebra_simps)
  then have closed: "4 * sin D * S = C"
    using exact_sum_closed [of D N] by (simp only: S_def C_def)
  have "4 * sin D * X = (4 * sin D * S) * D - 2 * sin D"
    by (simp add: X_def algebra_simps)
  also have "\<dots> = C * D - 2 * sin D" by (simp only: closed)
  also have "\<dots> = P + 2 * (D - sin D)" by (simp add: P_def algebra_simps)
  finally have e: "4 * sin D * X = P + 2 * (D - sin D)" .
  have "\<bar>C - 2\<bar> * D \<le> 17 / 10 * u * D" using C2 D0' by (rule mult_right_mono)
  then have "\<bar>P\<bar> \<le> 17 / 10 * R" using D0 by (simp add: P_def R_def abs_mult mult.commute)
  then have "\<bar>P + 2 * (D - sin D)\<bar> \<le> 18 / 10 * R" using sD sl R by argo
  then have "\<bar>4 * sin D * X\<bar> \<le> 18 / 10 * R" by (simp only: e)
  moreover have "\<bar>4 * sin D * X\<bar> = 4 * sin D * \<bar>X\<bar>"
    using sl2 D0 by (simp add: abs_mult)
  moreover have "2 * D * \<bar>X\<bar> \<le> 4 * sin D * \<bar>X\<bar>"
    using sl2 by (intro mult_right_mono) simp_all
  moreover have "18 / 10 * R = D * (18 / 10 * u)" by (simp add: R_def)
  ultimately have "D * (2 * \<bar>X\<bar>) \<le> D * (18 / 10 * u)" by linarith
  then have "2 * \<bar>X\<bar> \<le> 18 / 10 * u"
    using D0 by (simp only: mult_le_cancel_left_pos)
  then have "\<bar>X\<bar> \<le> u" using u(3) by linarith
  then show ?thesis by (simp only: X_def S_def u_def n_def)
qed

subsection \<open>The returned value\<close>

lemma floor_grid:
  "\<bar>of_rat (of_int \<lfloor>y * 2 ^ 21\<rfloor> / 2 ^ 21) - y\<bar> \<le> 1 / 2 ^ 20" for y :: real
proof -
  define k where "k = \<lfloor>y * 2 ^ 21\<rfloor>"
  have "of_int k \<le> y * 2 ^ 21" "y * 2 ^ 21 < of_int k + 1"
    unfolding k_def by linarith+
  then have "of_int k / 2 ^ 21 \<le> y" "y < of_int k / 2 ^ 21 + 1 / 2 ^ 21"
    by (simp_all add: field_simps)
  moreover have "(of_rat (of_int k / 2 ^ 21) :: real) = of_int k / 2 ^ 21"
    by (simp add: of_rat_divide)
  ultimately show ?thesis
    unfolding k_def [symmetric] by simp
qed

lemma libm_rounded_accurate: "libm_accurate libm_rounded"
  unfolding libm_accurate_def libm_rounded_def
  by (simp only: libm.simps floor_grid simp_thms)

lemma step_facts:
  assumes N: "1000 \<le> N" "N \<le> 500000"
  shows "\<exists>dx. fdiv (fsub (Finite half_pi) (Finite 0)) (round64 (of_int N)) = Finite dx \<and>
     0 \<le> dx \<and> of_nat (nat N) * dx \<le> 2 \<and>
     \<bar>real (nat N) * of_rat dx - (of_rat half_pi :: real)\<bar> \<le> 1 / 2 ^ 43"
proof -
  obtain dx where dx: "fdiv (fsub (Finite half_pi) (Finite 0)) (round64 (of_int N)) = Finite dx"
    and e: "\<bar>dx - half_pi / of_int N\<bar> \<le> 1 / 2 ^ 62"
    using step_accurate [OF N] by blast
  note b = step_bounds [OF N e]
  have n: "(of_nat (nat N) :: rat) = of_int N" using N by simp
  have "(of_rat \<bar>of_int N * dx - half_pi\<bar> :: real) \<le> of_rat (1 / 2 ^ 43)"
    using b(2) by (simp only: of_rat_less_eq)
  then have "\<bar>real_of_int N * of_rat dx - (of_rat half_pi :: real)\<bar> \<le> 1 / 2 ^ 43"
    by (simp add: abs_of_rat [symmetric] of_rat_diff of_rat_mult of_rat_divide of_rat_power)
  moreover have "real (nat N) = real_of_int N" using N by simp
  ultimately have "\<bar>real (nat N) * of_rat dx - (of_rat half_pi :: real)\<bar> \<le> 1 / 2 ^ 43"
    by (simp only:)
  moreover have "of_nat (nat N) * dx \<le> 2" unfolding n using b(3) by linarith
  moreover have "0 \<le> dx" using b(1) by simp
  ultimately show ?thesis using dx by blast
qed

lemma samples_finite:
  assumes N: "1000 \<le> N" "N \<le> 500000"
  shows "\<not> (\<exists>j<nat N. is_infinite
     (sample (Finite 0) (fdiv (fsub (Finite half_pi) (Finite 0)) (round64 (of_int N))) j))"
proof
  obtain dx where dx: "fdiv (fsub (Finite half_pi) (Finite 0)) (round64 (of_int N)) = Finite dx"
    and d: "0 \<le> dx" "of_nat (nat N) * dx \<le> 2"
    using step_facts [OF N] by blast
  assume "\<exists>j<nat N. is_infinite
     (sample (Finite 0) (fdiv (fsub (Finite half_pi) (Finite 0)) (round64 (of_int N))) j)"
  then obtain j where j: "j < nat N" "is_infinite (sample (Finite 0) (Finite dx) j)"
    unfolding dx by blast
  have "(of_nat j :: rat) \<le> of_nat (nat N)" using j(1) by simp
  then have "of_nat j * dx \<le> of_nat (nat N) * dx" using d(1) by (rule mult_right_mono)
  then have "of_nat j * dx \<le> 2" using d(2) by linarith
  moreover have "j \<le> 500000" using j(1) N by simp
  ultimately obtain x where "sample (Finite 0) (Finite dx) j = Finite x"
    using sample_accurate [OF d(1)] by blast
  then show False using j(2) by (simp add: is_infinite_def)
qed

lemma riemann_left_half_pi:
  assumes L: "libm_accurate L" and N: "1000 \<le> N" "N \<le> 500000"
  shows "\<exists>r. riemann_left L (Finite 0) (Finite half_pi) N = Finite r \<and>
     \<bar>of_rat r - (1 / 2 :: real)\<bar> \<le> 4 / of_int N"
proof -
  define m where "m = nat N"
  have m: "1000 \<le> m" "m \<le> 500000" using N by (simp_all add: m_def)
  obtain dx where dx: "fdiv (fsub (Finite half_pi) (Finite 0)) (round64 (of_int N)) = Finite dx"
    and d: "0 \<le> dx" "of_nat m * dx \<le> 2"
    and e: "\<bar>real m * of_rat dx - (of_rat half_pi :: real)\<bar> \<le> 1 / 2 ^ 43"
    using step_facts [OF N] unfolding m_def by blast
  obtain s where s: "left_sum L (Finite 0) (Finite dx) m = Finite s"
    and se: "\<bar>of_rat s - exact_sum (of_rat dx) m\<bar> \<le> real m * step_error"
    using left_sum_accurate [OF L d m(2) order_refl] by blast
  define D :: real where "D = of_rat dx"
  define S where "S = exact_sum D m"
  define T :: real where "T = of_rat s"
  define M where "M = real m * D"
  define u where "u = 1 / real m"
  have "1 / 500000 \<le> 1 / real m" using m by (intro divide_left_mono) simp_all
  moreover have "1 / real m \<le> 1 / 1000" using m by (intro divide_left_mono) simp_all
  ultimately have u: "1 / 500000 \<le> u" "u \<le> 1 / 1000"
    unfolding u_def by (simp_all only:)
  have D0: "0 \<le> D" using d(1) by (simp add: D_def)
  have "(1 :: real) / 2 ^ 43 \<le> 1 / 1000" by simp
  then have M: "M \<le> 16 / 10"
    using e half_pi_real(1) unfolding M_def D_def by argo
  have M0: "0 \<le> M" using D0 by (simp add: M_def)
  have "\<bar>T - S\<bar> * D \<le> real m * step_error * D"
    using se D0 unfolding T_def S_def D_def by (rule mult_right_mono)
  moreover have "real m * step_error * D = step_error * M" by (simp add: M_def)
  moreover have "step_error * M \<le> 3 / 10 ^ 6 * (16 / 10)"
    using step_error_le M M0 by (intro mult_mono) simp_all
  moreover have "\<bar>T * D - S * D\<bar> = \<bar>T - S\<bar> * D"
    using D0 by (simp add: abs_mult left_diff_distrib [symmetric])
  ultimately have "\<bar>T * D - S * D\<bar> \<le> 48 / 10000000" by simp
  then have a: "\<bar>T * D - S * D\<bar> \<le> 24 / 10 * u" using u by linarith
  have b: "\<bar>S * D - 1 / 2\<bar> \<le> u"
    unfolding S_def D_def u_def using m e by (rule exact_integral)
  have c: "\<bar>T * D - 1 / 2\<bar> \<le> 34 / 10 * u" using a b by argo
  have TD: "T * D = of_rat (s * dx)" by (simp add: T_def D_def of_rat_mult)
  have "\<bar>T * D\<bar> \<le> 2" using c u by argo
  then have "(of_rat \<bar>s * dx\<bar> :: real) \<le> of_rat 2"
    unfolding TD abs_of_rat by simp
  then have "\<bar>s * dx\<bar> \<le> 2" by (simp only: of_rat_less_eq)
  from round_small [OF this] obtain r where r: "round64 (s * dx) = Finite r"
    and re: "\<bar>of_rat r - (of_rat (s * dx) :: real)\<bar> \<le> 1 / 2 ^ 52"
    by auto
  have "(1 :: real) / 2 ^ 52 \<le> 1 / 5000000" by simp
  then have "\<bar>of_rat r - T * D\<bar> \<le> 1 / 10 * u" using re u unfolding TD by linarith
  then have "\<bar>of_rat r - (1 / 2 :: real)\<bar> \<le> 4 * u" using c u by argo
  moreover have "4 * u = 4 / real_of_int N" using N by (simp add: u_def m_def)
  ultimately have "\<bar>of_rat r - (1 / 2 :: real)\<bar> \<le> 4 / of_int N" by (simp only:)
  moreover have "riemann_left L (Finite 0) (Finite half_pi) N = Finite r"
    unfolding riemann_left_def Let_def dx using s r by (simp add: m_def)
  ultimately show ?thesis by blast
qed

lemma below_threshold:
  assumes "N \<le> 500000"
  shows "\<not> overflow_threshold \<le> (of_int N :: rat)"
proof -
  have "(of_int N :: rat) \<le> 500000" using assms by simp
  moreover have "(500000 :: rat) < overflow_threshold" by (simp add: overflow_threshold_def)
  ultimately show ?thesis by linarith
qed

lemma integrate_python_half_pi_accurate:
  assumes L: "libm_accurate L" and N: "1000 \<le> N" "N \<le> 500000"
  shows "\<exists>r. integrate_python L (Finite 0) (Finite half_pi) N = Inr (Finite r) \<and>
     \<bar>of_rat r - (1 / 2 :: real)\<bar> \<le> 4 / of_int N"
proof -
  have "1 \<le> N" using N by simp
  then have "integrate_python L (Finite 0) (Finite half_pi) N =
      Inr (riemann_left L (Finite 0) (Finite half_pi) N)"
    using below_threshold [OF N(2)] samples_finite [OF N]
    by (simp only: integrate_python_positive if_False)
  then show ?thesis using riemann_left_half_pi [OF L N] by simp
qed

subsection \<open>Counts up to the largest double\<close>

text \<open>Whatever the count, the accumulator never exceeds \<open>2 ^ 54\<close>: from there on a term of
  size at most 1 is rounded away.\<close>

lemma round64_finite_bound:
  assumes "\<bar>q\<bar> < overflow_threshold"
  shows "\<exists>r. round64 q = Finite r \<and> \<bar>r\<bar> \<le> 2 ^ 1024"
proof (cases "q = 0")
  case True
  then show ?thesis by simp
next
  case False
  have T: "overflow_threshold < 2 powi 1024" by (simp add: overflow_threshold_def)
  have "binade q \<le> 1023"
  proof (rule ccontr)
    assume "\<not> binade q \<le> 1023"
    then have "(2::rat) powi 1024 \<le> 2 powi binade q"
      by (intro power_int_increasing) simp_all
    then show False using binade_bounds(1) [OF False] assms T by linarith
  qed
  then have u: "ulp_exp q \<le> 971" by (simp add: ulp_exp_def)
  have e: "of_int (2 ^ 53) * (2::rat) powi 971 = 2 powi 1024"
    "of_int (- (2 ^ 53)) * (2::rat) powi 971 = - (2 powi 1024)"
    by simp_all
  have "of_int (- (2 ^ 53)) * 2 powi 971 \<le> q" "q \<le> of_int (2 ^ 53) * 2 powi 971"
    unfolding e using assms T by linarith+
  from round64_between [OF assms u this]
  obtain r where "round64 q = Finite r" "- (2 powi 1024) \<le> r" "r \<le> 2 powi 1024"
    unfolding e by blast
  then show ?thesis by (intro exI [of _ r]) (simp add: abs_le_iff)
qed

lemma term_small:
  assumes "libm_accurate L"
  shows "\<exists>t. fmul (c_sin L (Finite x)) (c_cos L (Finite x)) = Finite t \<and> \<bar>t\<bar> \<le> 1"
proof -
  obtain t where t: "fmul (c_sin L (Finite x)) (c_cos L (Finite x)) = Finite t"
    and e: "\<bar>of_rat t - sin (of_rat x :: real) * cos (of_rat x)\<bar> \<le> 3 / 2 ^ 20 + 1 / 2 ^ 52"
    using term_accurate [OF assms] by blast
  define y :: real where "y = of_rat x"
  have "\<bar>sin y * cos y\<bar> = \<bar>sin (2 * y)\<bar> / 2" by (simp add: sin_double abs_mult)
  moreover have "\<bar>sin (2 * y)\<bar> \<le> 1" by (rule abs_sin_le_one)
  ultimately have h: "\<bar>sin y * cos y\<bar> \<le> 1 / 2" by linarith
  have "(3 :: real) / 2 ^ 20 + 1 / 2 ^ 52 \<le> 1 / 2" by simp
  then have "\<bar>of_rat t :: real\<bar> \<le> 1" using e h unfolding y_def by linarith
  then have "(of_rat \<bar>t\<bar> :: real) \<le> of_rat 1" by (simp add: abs_of_rat)
  then have "\<bar>t\<bar> \<le> 1" by (simp only: of_rat_less_eq)
  then show ?thesis using t by blast
qed

lemma step_small:
  assumes N: "1000 \<le> N" "of_int N < overflow_threshold"
  shows "\<exists>d. fdiv (fsub (Finite half_pi) (Finite 0)) (round64 (of_int N)) = Finite d \<and>
     \<bar>d\<bar> \<le> 1 / 2 ^ 8"
proof -
  have fin: "\<bar>of_int N :: rat\<bar> < overflow_threshold" using N by simp
  have "(2::rat) powi 9 \<le> \<bar>of_int N\<bar>" using N(1) by simp
  from round64_abs_ge [OF _ this fin]
  obtain n where n: "round64 (of_int N) = Finite n" "2 ^ 9 \<le> \<bar>n\<bar>" by auto
  then have n0: "n \<noteq> 0" by auto
  have "\<bar>half_pi\<bar> \<le> 2" by (simp add: half_pi_def)
  then have "\<bar>half_pi\<bar> / \<bar>n\<bar> \<le> 2 / 2 ^ 9"
    using n(2) by (intro frac_le) simp_all
  then have "\<bar>half_pi / n\<bar> \<le> 2 powi (- 8)"
    by (simp add: power_int_minus_divide)
  from round64_abs_le [OF _ _ this]
  obtain d where d: "round64 (half_pi / n) = Finite d" "\<bar>d\<bar> \<le> 1 / 2 ^ 8"
    by (auto simp: power_int_minus_divide)
  have "fdiv (fsub (Finite half_pi) (Finite 0)) (round64 (of_int N)) = Finite d"
    using n0 by (simp add: n(1) fsub_def round64_half_pi d(1))
  then show ?thesis using d(2) by blast
qed

lemma sample_finite:
  assumes d: "\<bar>d\<bar> \<le> 1 / 2 ^ 8" and j: "\<bar>of_nat j :: rat\<bar> < overflow_threshold"
  shows "\<exists>x. sample (Finite 0) (Finite d) j = Finite x"
proof -
  obtain i where i: "round64 (of_nat j) = Finite i" "\<bar>i\<bar> \<le> 2 ^ 1024"
    using round64_finite_bound [OF j] by blast
  have "\<bar>i\<bar> * \<bar>d\<bar> \<le> 2 ^ 1024 * (1 / 2 ^ 8)"
    using i(2) d by (intro mult_mono) simp_all
  then have "\<bar>i * d\<bar> \<le> 2 powi 1016" by (simp add: abs_mult)
  from round64_abs_le [OF _ _ this]
  obtain v where v: "round64 (i * d) = Finite v" "\<bar>v\<bar> \<le> 2 powi 1016" by auto
  from round64_abs_le [OF _ _ v(2)]
  obtain x where "round64 v = Finite x" by auto
  then show ?thesis by (simp add: sample_def i(1) v(1))
qed

lemma riemann_left_half_pi_finite:
  assumes L: "libm_accurate L" and N: "1000 \<le> N" "of_int N < overflow_threshold"
  shows "(\<forall>j<nat N. \<not> is_infinite
       (sample (Finite 0) (fdiv (fsub (Finite half_pi) (Finite 0)) (round64 (of_int N))) j)) \<and>
     (\<exists>r. riemann_left L (Finite 0) (Finite half_pi) N = Finite r \<and> \<bar>r\<bar> \<le> 2 ^ 46)"
proof -
  obtain d where dx: "fdiv (fsub (Finite half_pi) (Finite 0)) (round64 (of_int N)) = Finite d"
    and d: "\<bar>d\<bar> \<le> 1 / 2 ^ 8"
    using step_small [OF N] by blast
  have smp: "\<exists>x. sample (Finite 0) (Finite d) j = Finite x" if "j < nat N" for j
  proof -
    have "int j < N" using that by simp
    then have "(of_int (int j) :: rat) < of_int N" by (simp only: of_int_less_iff)
    then have "\<bar>of_nat j :: rat\<bar> < overflow_threshold" using N(2) by simp
    then show ?thesis using d sample_finite by blast
  qed
  have "\<exists>t. term_at L (Finite 0) (Finite d) j = Finite t \<and> \<bar>t\<bar> \<le> 1" if jn: "j < nat N" for j
  proof -
    obtain x where "sample (Finite 0) (Finite d) j = Finite x" using smp [OF jn] by blast
    then show ?thesis using term_small [OF L, of x] by (simp add: term_at_def)
  qed
  then have "\<forall>j\<in>set [0..<nat N]. \<exists>t. term_at L (Finite 0) (Finite d) j = Finite t \<and> \<bar>t\<bar> \<le> 1"
    by simp
  moreover have "\<bar>0 :: rat\<bar> \<le> 2 ^ 54" by simp
  ultimately obtain s where s: "left_sum L (Finite 0) (Finite d) (nat N) = Finite s"
    "\<bar>s\<bar> \<le> 2 ^ 54"
    unfolding left_sum_eq using foldl_bounded by blast
  have "\<bar>s\<bar> * \<bar>d\<bar> \<le> 2 ^ 54 * (1 / 2 ^ 8)"
    using s(2) d by (intro mult_mono) simp_all
  then have "\<bar>s * d\<bar> \<le> 2 powi 46" by (simp add: abs_mult)
  from round64_abs_le [OF _ _ this]
  obtain r where r: "round64 (s * d) = Finite r" "\<bar>r\<bar> \<le> 2 ^ 46" by auto
  have "riemann_left L (Finite 0) (Finite half_pi) N = Finite r"
    unfolding riemann_left_def Let_def dx by (simp add: s(1) r(1))
  moreover have "\<not> is_infinite (sample (Finite 0) (Finite d) j)" if jn: "j < nat N" for j
    using smp [OF jn] by (auto simp: is_infinite_def)
  ultimately show ?thesis unfolding dx using r(2) by blast
qed

lemma integrate_python_half_pi_finite:
  assumes L: "libm_accurate L" and N: "1000 \<le> N" "of_int N < overflow_threshold"
  shows "\<exists>r. integrate_python L (Finite 0) (Finite half_pi) N = Inr (Finite r) \<and>
     \<bar>of_rat r - (1 / 2 :: real)\<bar> \<le> 2 ^ 1071 / of_int N"
proof -
  obtain r where r: "riemann_left L (Finite 0) (Finite half_pi) N = Finite r" "\<bar>r\<bar> \<le> 2 ^ 46"
    and fin: "\<forall>j<nat N. \<not> is_infinite
       (sample (Finite 0) (fdiv (fsub (Finite half_pi) (Finite 0)) (round64 (of_int N))) j)"
    using riemann_left_half_pi_finite [OF assms] by blast
  have "1 \<le> N" using N(1) by simp
  then have v: "integrate_python L (Finite 0) (Finite half_pi) N = Inr (Finite r)"
    using N(2) fin by (simp add: integrate_python_positive r(1))
  define R :: real where "R = of_rat r"
  have "(of_rat \<bar>r\<bar> :: real) \<le> of_rat (2 ^ 46)" using r(2) by (simp only: of_rat_less_eq)
  then have "\<bar>R\<bar> \<le> 2 ^ 46" unfolding R_def by (simp add: abs_of_rat of_rat_power)
  then have "\<bar>R - 1 / 2\<bar> \<le> 2 ^ 47" by simp
  then have b: "\<bar>of_rat r - (1 / 2 :: real)\<bar> \<le> 2 ^ 47" by (simp only: R_def)
  have "overflow_threshold < 2 ^ 1024" by (simp add: overflow_threshold_def)
  then have "(of_int N :: rat) < of_int (2 ^ 1024)" using N(2) by simp
  then have "N < 2 ^ 1024" by (simp only: of_int_less_iff)
  then have "real_of_int N \<le> 2 ^ 1024" by (simp flip: of_int_le_iff)
  then have "2 ^ 47 * real_of_int N \<le> 2 ^ 47 * 2 ^ 1024" by (intro mult_left_mono) simp_all
  also have "(2 ^ 47 * 2 ^ 1024 :: real) = 2 ^ 1071" by (simp flip: power_add)
  finally have "(2 ^ 47 :: real) \<le> 2 ^ 1071 / real_of_int N"
    using N(1) by (simp add: pos_le_divide_eq)
  then have "\<bar>of_rat r - (1 / 2 :: real)\<bar> \<le> 2 ^ 1071 / of_int N" using b by linarith
  then show ?thesis using v by blast
qed

section \<open>The vectorized function\<close>

lemma fmul_commute: "fmul x y = fmul y x"
  by (cases x; cases y) (simp_all add: mult.commute)

lemma left_sum_terms:
  "left_sum L a (fdiv (fsub b a) (round64 (of_int N))) (nat N) =
     foldl fadd (Finite 0) (left_terms L a b N)"
  by (simp add: left_sum_eq left_terms_def foldl_map)

lemma riemann_left_terms:
  "riemann_left L a b N =
     fmul (fdiv (fsub b a) (round64 (of_int N))) (foldl fadd (Finite 0) (left_terms L a b N))"
  unfolding riemann_left_def Let_def left_sum_terms by (rule fmul_commute)

lemma fnp_samples:
  assumes "\<forall>v. np_sin NP v = c_sin L v \<and> np_cos NP v = c_cos L v"
  shows "butlast (fnp NP (map (sample a dx) js @ [b])) = map (term_at L a dx) js"
  using assms by (simp add: fnp_def term_at_def butlast_append)

lemma integrate_numpy_positive:
  assumes N: "1 \<le> N" and np: "numpy_samples NP L a b N"
  shows "integrate_numpy NP a b N =
     (if overflow_threshold \<le> of_int N then Inl OverflowError
      else Inr (fmul (fdiv (fsub b a) (round64 (of_int N))) (np_sum NP (left_terms L a b N))))"
proof (cases "overflow_threshold \<le> (of_int N :: rat)")
  case True
  then have "overflow_threshold \<le> \<bar>of_int N :: rat\<bar>" by simp
  then have "float_of_int N = Inl OverflowError" by (rule float_of_int_overflow)
  then show ?thesis
    using True np by (simp add: integrate_numpy_def numpy_samples_def py_truediv_def)
next
  case False
  have "(0::rat) \<le> of_int N" using N by simp
  then have fin: "\<bar>of_int N :: rat\<bar> < overflow_threshold" using False by simp
  have nz: "N \<noteq> 0" using N by simp
  have t: "butlast (fnp NP (map (sample a (fdiv (fsub b a) (round64 (of_int N)))) [0..<nat N] @ [b])) =
      left_terms L a b N"
    using np unfolding left_terms_def Let_def numpy_samples_def by (intro fnp_samples) simp
  show ?thesis
    using False np t
    by (simp add: integrate_numpy_def numpy_samples_def py_truediv_in_range [OF nz fin])
qed

lemma numpy_plain_samples:
  assumes "1 \<le> N"
  shows "numpy_samples (numpy_plain L) L a b N"
  using assms by (simp add: numpy_samples_def numpy_plain_def)

lemma numpy_plain_sum: "np_sum (numpy_plain L) ts = foldl fadd (Finite 0) ts"
  by (simp add: numpy_plain_def)

lemma integrate_numpy_plain:
  assumes "1 \<le> N" "of_int N < overflow_threshold"
  shows "integrate_numpy (numpy_plain L) a b N = Inr (riemann_left L a b N)"
  using assms(2)
  by (simp add: integrate_numpy_positive [OF assms(1) numpy_plain_samples [OF assms(1)]]
      numpy_plain_sum riemann_left_terms)

section \<open>The left-endpoint sum of the base Python function\<close>

text \<open>
  Claim C1 says that for all finite bounds and every \<open>N \<ge> 1\<close> the function returns
  \<open>s * dx\<close>.  The base Python function raises \<open>OverflowError\<close> when \<open>N\<close> does not fit a
  double (\<open>N = 2 ^ 1024\<close>, bounds 0 and 1), and \<open>ValueError\<close> when a sample point is an
  infinity: with \<open>a = -2 ^ 1023\<close>, \<open>b = 2 ^ 1023\<close> and \<open>N = 2\<close> the difference \<open>b - a\<close>
  overflows and \<open>math.sin\<close> is called at \<open>inf\<close>.
\<close>

theorem integrate_python_raises_counterexample:
  "integrate_python libm_table (Finite 0) (Finite 1) (2 ^ 1024) = Inl OverflowError \<and>
   integrate_python libm_table (Finite (- huge)) (Finite huge) 2 = Inl ValueError"
  by (intro conjI integrate_python_too_many integrate_python_huge)

text \<open>
  Claim C1, amended: for every \<open>N \<ge> 1\<close> that converts to a double
  (\<open>N < 2 ^ 1024 - 2 ^ 970\<close>) and all bounds for which no sample point \<open>a + i * dx\<close>,
  \<open>i < N\<close>, is an infinity, \<open>integrate_python\<close> returns \<open>s * dx\<close>, where
  \<open>dx = (b - a) / N\<close> and \<open>s\<close> is the accumulator that starts at 0 and adds
  \<open>sin(a + i * dx) * cos(a + i * dx)\<close> for \<open>i = 0, ..., N - 1\<close> in this order.
\<close>

theorem integrate_python_left_riemann:
  assumes "1 \<le> N" and "of_int N < overflow_threshold"
    and "\<forall>j<nat N. \<not> is_infinite (sample a (fdiv (fsub b a) (round64 (of_int N))) j)"
  shows "integrate_python L a b N = Inr (riemann_left L a b N)"
  using assms by (simp add: integrate_python_positive)

theorem integrate_python_left_riemann_witness:
  "(1::int) \<le> 2 \<and> (of_int 2 :: rat) < overflow_threshold \<and>
   integrate_python libm_table (Finite 0) (Finite 2) 2 = Inr (Finite sincos_1)"
proof -
  have lt: "(of_int 2 :: rat) < overflow_threshold"
    by (simp add: one_less_threshold)
  have fin: "\<forall>j<nat 2. \<not> is_infinite
      (sample (Finite 0) (fdiv (fsub (Finite 2) (Finite 0)) (round64 (of_int 2))) j)"
    using samples_0_2_finite by simp
  show ?thesis
    using integrate_python_left_riemann [OF _ lt fin, of libm_table] lt
    by (simp add: riemann_left_0_2)
qed

section \<open>Agreement of the implementations\<close>




section \<open>Zero and negative subdivision counts\<close>

text \<open>
  Claim C3 says that for \<open>N \<le> 0\<close> no implementation raises and the result is an infinity
  or a NaN.  The base Python function raises \<open>ZeroDivisionError\<close> at \<open>N = 0\<close>, the
  standalone \<open>integrate\<close> returns zero at \<open>N = -1\<close> on the interval from 0 to 1, and its
  call from Python with \<open>N = -2 ^ 31 - 1\<close> raises \<open>OverflowError\<close>.
\<close>

theorem nonpositive_count_counterexample:
  "integrate_python libm_table (Finite 0) (Finite 1) 0 = Inl ZeroDivisionError \<and>
   integrate libm_table (Finite 0) (Finite 1) (- 1) = Inr (Finite 0) \<and>
   integrate_call libm_table (Finite 0) (Finite 1) (- (2 ^ 31) - 1) = Inl OverflowError"
proof -
  have "sint (- 1 :: 32 word) \<le> 0" by simp
  then have "integrate libm_table (Finite 0) (Finite 1) (- 1) = Inr (Finite 0)"
    by (simp add: integrate_empty fsub_def double_of_int32_def)
  then show ?thesis
    by (simp add: integrate_python_def py_truediv_zero integrate_call_def)
qed

text \<open>
  Claim C3, amended: for every \<open>N \<le> 0\<close> of the C \<open>int\<close> range the standalone
  \<open>integrate\<close>, compiled with \<open>cdivision(True)\<close>, does not raise.  At \<open>N = 0\<close> it returns
  NaN.  At \<open>N < 0\<close> its loop does not run and it returns \<open>0.0 * dx\<close>: zero when \<open>dx\<close> is
  finite, NaN otherwise, never an infinity.  Below the C \<open>int\<close> range the call from Python
  raises \<open>OverflowError\<close>.  The base Python function raises \<open>ZeroDivisionError\<close> at
  \<open>N = 0\<close> and \<open>OverflowError\<close> at \<open>N \<le> -(2 ^ 1024 - 2 ^ 970)\<close>; at every other \<open>N < 0\<close> it
  does not raise and returns \<open>0 * dx\<close>, zero or NaN in the same way.
\<close>

theorem integrate_nonpositive:
  assumes "N \<le> 0"
  shows "integrate_call L a b N =
       (if N < - (2 ^ 31) then Inl OverflowError
        else Inr (if N = 0 then NaN
                  else case fdiv (fsub b a) (Finite (of_int N)) of
                         Finite d \<Rightarrow> Finite 0 | _ \<Rightarrow> NaN)) \<and>
     integrate_python L a b N =
       (if N = 0 then Inl ZeroDivisionError
        else if of_int N \<le> - overflow_threshold then Inl OverflowError
        else Inr (case fdiv (fsub b a) (round64 (of_int N)) of
                    Finite d \<Rightarrow> Finite 0 | _ \<Rightarrow> NaN))"
proof (cases "N < - (2 ^ 31)")
  case True
  then have "integrate_call L a b N = Inl OverflowError"
    by (simp add: integrate_call_def)
  then show ?thesis
    using True integrate_python_nonpositive [OF assms] by simp
next
  case False
  then have "- (2 ^ 31) \<le> N" by simp
  from integrate_call_nonpositive [OF this assms] show ?thesis
    using False integrate_python_nonpositive [OF assms] by simp
qed

theorem integrate_nonpositive_witness:
  "(- 2 :: int) \<le> 0 \<and>
   integrate_call libm_table (Finite 0) (Finite 2) (- 2) = Inr (Finite 0) \<and>
   integrate_python libm_table (Finite 0) (Finite 2) (- 2) = Inr (Finite 0)"
proof -
  have h: "(- 2 :: int) \<le> 0" by simp
  have t: "\<not> (of_int (- 2) :: rat) \<le> - overflow_threshold"
    using one_less_threshold(2) by simp
  show ?thesis
    using integrate_nonpositive [OF h, of libm_table "Finite 0" "Finite 2"] t
    by (simp add: fsub_def)
qed

text \<open>
  Claim C4 says that at \<open>N = 0\<close> the call is rejected with an error before \<open>dx\<close> is
  computed.  The standalone \<open>integrate\<close> raises nothing there: it returns NaN.
\<close>

theorem standalone_zero_count_counterexample:
  "integrate libm_table (Finite 0) (Finite 1) 0 = Inr NaN"
  by (rule integrate_zero)

text \<open>
  Claim C4, amended: at \<open>N = 0\<close> the base Python function and the three Cython functions of
  the notebook raise \<open>ZeroDivisionError\<close>, from the division that computes \<open>dx\<close> (no
  separate test of the argument precedes it), for all bounds.
\<close>

theorem zero_count_raises:
  "integrate_python L a b 0 = Inl ZeroDivisionError \<and>
   integrate_cython_types L a b 0 = Inl ZeroDivisionError \<and>
   integrate_cython_libc L a b 0 = Inl ZeroDivisionError \<and>
   integrate_cython_cfun L a b 0 = Inl ZeroDivisionError"
  by (simp add: integrate_python_def py_truediv_zero integrate_cython_types_def
      integrate_cython_libc_def integrate_cython_cfun_def cython_div_def)

theorem zero_count_raises_witness:
  "integrate_python libm_table (Finite 0) (Finite half_pi) 0 = Inl ZeroDivisionError \<and>
   integrate_cython_types libm_table (Finite 0) (Finite half_pi) 0 = Inl ZeroDivisionError \<and>
   integrate_cython_libc libm_table (Finite 0) (Finite half_pi) 0 = Inl ZeroDivisionError \<and>
   integrate_cython_cfun libm_table (Finite 0) (Finite half_pi) 0 = Inl ZeroDivisionError"
  by (rule zero_count_raises)

text \<open>
  Claim C10 says that for \<open>N < 0\<close> and finite bounds \<open>a \<noteq> b\<close> the base Python function
  neither raises nor returns an infinity or a NaN.  With \<open>a = -2 ^ 1023\<close>, \<open>b = 2 ^ 1023\<close>
  and \<open>N = -1\<close> the difference \<open>b - a\<close> overflows and the result is \<open>0 * -inf\<close>, a NaN;
  with \<open>N = -2 ^ 1024\<close> the conversion of \<open>N\<close> raises \<open>OverflowError\<close>.
\<close>

theorem negative_count_counterexample:
  "integrate_python libm_table (Finite (- huge)) (Finite huge) (- 1) = Inr NaN \<and>
   integrate_python libm_table (Finite 0) (Finite 1) (- (2 ^ 1024)) = Inl OverflowError"
proof -
  have "- overflow_threshold < (of_int (- 1) :: rat)"
    using one_less_threshold(1) by simp
  then have 1: "integrate_python libm_table (Finite (- huge)) (Finite huge) (- 1) = Inr NaN"
    by (simp add: integrate_python_negative fsub_def round64_twice_huge)
  have "overflow_threshold \<le> \<bar>of_int (- (2 ^ 1024)) :: rat\<bar>"
    by (simp add: overflow_threshold_def)
  then have "float_of_int (- (2 ^ 1024)) = Inl OverflowError"
    by (rule float_of_int_overflow)
  then have 2: "integrate_python libm_table (Finite 0) (Finite 1) (- (2 ^ 1024)) =
      Inl OverflowError"
    by (simp add: integrate_python_def py_truediv_def)
  show ?thesis using 1 2 by simp
qed

text \<open>
  Claim C10, amended: for every \<open>N < 0\<close> that converts to a double
  (\<open>N > -(2 ^ 1024 - 2 ^ 970)\<close>) and all bounds, \<open>integrate_python\<close> does not raise: its
  loop does not run and it returns \<open>0 * dx\<close>, which is zero when \<open>dx = (b - a) / N\<close> is
  finite and NaN otherwise.  It is zero whenever the difference \<open>b - a\<close> is finite
  (\<open>a \<noteq> b\<close> is not needed).
\<close>

theorem negative_count_zero:
  assumes "N < 0" "- overflow_threshold < of_int N"
  shows "integrate_python L a b N =
       Inr (case fdiv (fsub b a) (round64 (of_int N)) of Finite d \<Rightarrow> Finite 0 | _ \<Rightarrow> NaN) \<and>
     (\<forall>x. fsub b a = Finite x \<and> \<bar>x\<bar> < overflow_threshold \<longrightarrow>
          integrate_python L a b N = Inr (Finite 0))"
proof -
  have "(of_int N :: rat) < 0" using assms(1) by simp
  then have fin: "\<bar>of_int N :: rat\<bar> < overflow_threshold" using assms(2) by simp
  have nz: "N \<noteq> 0" using assms(1) by simp
  have eq: "integrate_python L a b N =
       Inr (case fdiv (fsub b a) (round64 (of_int N)) of Finite d \<Rightarrow> Finite 0 | _ \<Rightarrow> NaN)"
    using assms by (rule integrate_python_negative)
  have "integrate_python L a b N = Inr (Finite 0)"
    if diff: "fsub b a = Finite x" and small: "\<bar>x\<bar> < overflow_threshold" for x
  proof -
    obtain d where "fdiv (Finite x) (round64 (of_int N)) = Finite d"
      using fdiv_int_finite [OF nz fin small] by blast
    then show ?thesis by (simp add: eq diff)
  qed
  then show ?thesis using eq by blast
qed

theorem negative_count_zero_witness:
  "(- 2 :: int) < 0 \<and> - overflow_threshold < (of_int (- 2) :: rat) \<and>
   fsub (Finite 2) (Finite 0) = Finite 2 \<and> \<bar>2 :: rat\<bar> < overflow_threshold \<and>
   integrate_python libm_table (Finite 0) (Finite 2) (- 2) = Inr (Finite 0)"
proof -
  have h: "- overflow_threshold < (of_int (- 2) :: rat)"
    using one_less_threshold(2) by simp
  have d: "fsub (Finite 2) (Finite 0) = Finite 2" by (simp add: fsub_def)
  have x: "\<bar>2 :: rat\<bar> < overflow_threshold" using one_less_threshold(2) by simp
  show ?thesis
    using h d x negative_count_zero [OF _ h, of libm_table "Finite 0" "Finite 2"]
    by simp
qed

section \<open>The rule of integration\<close>

text \<open>
  Claim C5 says that the result of each of the five implementations is the
  trapezoidal-rule sum for the given \<open>a\<close>, \<open>b\<close>, \<open>N\<close>.  On the interval from 0 to 1 with one
  bin each of the five returns \<open>sin(0) * cos(0) * 1 = 0\<close>, and the trapezoidal sum is
  \<open>(0 + sin(1) * cos(1)) / 2\<close>, about 0.227.  On the notebook's interval from 0 to
  \<open>1.5707963267948966\<close> with one bin the base Python function returns 0 as well, and the
  trapezoidal sum is \<open>4.8091767343044744e-17\<close>: the integrand vanishes at 0, and nearly so
  at the right end.
\<close>

theorem trapezoid_counterexample:
  "integrate_python libm_table (Finite 0) (Finite 1) 1 = Inr (Finite 0) \<and>
   integrate_numpy (numpy_plain libm_table) (Finite 0) (Finite 1) 1 = Inr (Finite 0) \<and>
   integrate_cython_types libm_table (Finite 0) (Finite 1) 1 = Inr (Finite 0) \<and>
   integrate_cython_libc libm_table (Finite 0) (Finite 1) 1 = Inr (Finite 0) \<and>
   integrate_cython_cfun libm_table (Finite 0) (Finite 1) 1 = Inr (Finite 0) \<and>
   integrate libm_table (Finite 0) (Finite 1) 1 = Inr (Finite 0) \<and>
   trapezoid_sum libm_table (Finite 0) (Finite 1) 1 = Finite (sincos_1 / 2) \<and>
   trapezoid_sum libm_table (Finite 0) (Finite 1) 1 \<noteq> Finite 0 \<and>
   integrate_python libm_table (Finite 0) (Finite half_pi) 1 = Inr (Finite 0) \<and>
   trapezoid_sum libm_table (Finite 0) (Finite half_pi) 1 = Finite trapezoid_half_pi \<and>
   integrate_python libm_table (Finite 0) (Finite half_pi) 1 \<noteq>
     Inr (trapezoid_sum libm_table (Finite 0) (Finite half_pi) 1)"
proof -
  have 1: "trapezoid_sum libm_table (Finite 0) (Finite 1) 1 \<noteq> Finite 0"
    by (simp add: trapezoid_0_1 sincos_1_def)
  have 3: "libm_sin libm_table 0 = 0" by (simp add: libm_table_def)
  have 2: "integrate_python libm_table (Finite 0) (Finite half_pi) 1 \<noteq>
      Inr (trapezoid_sum libm_table (Finite 0) (Finite half_pi) 1)"
    by (simp add: integrate_python_single_bin [OF 3] trapezoid_0_half_pi trapezoid_half_pi_def)
  have 4: "0 < sint (1 :: 32 word)" by simp
  have 5: "(of_int 1 :: rat) < overflow_threshold" using one_less_threshold(1) by simp
  have 6: "integrate_numpy (numpy_plain libm_table) (Finite 0) (Finite 1) 1 = Inr (Finite 0)"
    using integrate_numpy_plain [OF _ 5, of libm_table "Finite 0" "Finite 1"]
    by (simp add: riemann_left_0_1)
  have 7: "integrate_cython_types libm_table (Finite 0) (Finite 1) 1 = Inr (Finite 0)"
    using sample_0_1_finite
    by (simp only: integrate_cython_types_positive [OF 4] if_False) (simp add: riemann_left_0_1)
  have 8: "integrate_cython_libc libm_table (Finite 0) (Finite 1) 1 = Inr (Finite 0)"
    "integrate_cython_cfun libm_table (Finite 0) (Finite 1) 1 = Inr (Finite 0)"
    "integrate libm_table (Finite 0) (Finite 1) 1 = Inr (Finite 0)"
    using 4
    by (simp_all add: integrate_cython_libc_positive integrate_cython_cfun_positive
        integrate_positive riemann_left_0_1)
  show ?thesis
    by (intro conjI 1 2 6 7 8 trapezoid_0_1 integrate_python_0_1
        integrate_python_single_bin [OF 3] trapezoid_0_half_pi)
qed

text \<open>
  Claim C5, amended: each of the five implementations computes the left-endpoint Riemann
  sum with \<open>N\<close> subdivisions, not the trapezoidal one.  For every \<open>N \<ge> 1\<close> the base Python
  function returns \<open>s * dx\<close> with \<open>dx = (b - a) / N\<close> and \<open>s\<close> the sum of
  \<open>sin(a + i * dx) * cos(a + i * dx)\<close> over \<open>i = 0, ..., N - 1\<close>, unless \<open>N\<close> does not
  convert to a double (\<open>OverflowError\<close>) or a sample point is an infinity (\<open>ValueError\<close>).
  \<open>integrate_numpy\<close> returns \<open>dx\<close> times \<open>np.sum\<close> of the same \<open>N\<close> terms, the right end
  point \<open>b\<close> left out, when \<open>np.linspace\<close> yields the points \<open>a + i * dx\<close> followed by \<open>b\<close>
  and \<open>np.sin\<close>, \<open>np.cos\<close> return the values of the C library (\<open>OverflowError\<close> as above).
  For every \<open>N \<ge> 1\<close> of the C \<open>int\<close> range \<open>integrate_cython_libc\<close>,
  \<open>integrate_cython_cfun\<close> and the standalone \<open>integrate\<close> return \<open>s * dx\<close>, and so does
  \<open>integrate_cython_types\<close> unless a sample point is an infinity, where it raises
  \<open>ValueError\<close>.
\<close>

theorem implementations_left_riemann:
  assumes "1 \<le> M" and "numpy_samples NP L a b M" and "0 < sint N"
  shows "integrate_python L a b M =
       (if overflow_threshold \<le> of_int M then Inl OverflowError
        else if \<exists>j<nat M. is_infinite (sample a (fdiv (fsub b a) (round64 (of_int M))) j)
          then Inl ValueError
        else Inr (riemann_left L a b M)) \<and>
     integrate_numpy NP a b M =
       (if overflow_threshold \<le> of_int M then Inl OverflowError
        else Inr (fmul (fdiv (fsub b a) (round64 (of_int M)))
                   (np_sum NP (left_terms L a b M)))) \<and>
     integrate_cython_types L a b N =
       (if \<exists>j<nat (sint N).
             is_infinite (sample a (fdiv (fsub b a) (round64 (of_int (sint N)))) j)
        then Inl ValueError else Inr (riemann_left L a b (sint N))) \<and>
     integrate_cython_libc L a b N = Inr (riemann_left L a b (sint N)) \<and>
     integrate_cython_cfun L a b N = Inr (riemann_left L a b (sint N)) \<and>
     integrate L a b N = Inr (riemann_left L a b (sint N))"
  using integrate_python_positive [OF assms(1), of L a b]
    integrate_numpy_positive [OF assms(1,2)]
    integrate_cython_types_positive [OF assms(3), of L a b]
    integrate_cython_libc_positive [OF assms(3), of L a b]
    integrate_cython_cfun_positive [OF assms(3), of L a b]
    integrate_positive [OF assms(3), of L a b]
  by (intro conjI)

theorem implementations_left_riemann_witness:
  "(1 :: int) \<le> 2 \<and> numpy_samples (numpy_plain libm_table) libm_table (Finite 0) (Finite 2) 2 \<and>
   0 < sint (2 :: 32 word) \<and>
   integrate_python libm_table (Finite 0) (Finite 2) 2 = Inr (Finite sincos_1) \<and>
   integrate_numpy (numpy_plain libm_table) (Finite 0) (Finite 2) 2 = Inr (Finite sincos_1) \<and>
   integrate_cython_types libm_table (Finite 0) (Finite 2) 2 = Inr (Finite sincos_1) \<and>
   integrate_cython_libc libm_table (Finite 0) (Finite 2) 2 = Inr (Finite sincos_1) \<and>
   integrate_cython_cfun libm_table (Finite 0) (Finite 2) 2 = Inr (Finite sincos_1) \<and>
   integrate libm_table (Finite 0) (Finite 2) 2 = Inr (Finite sincos_1)"
proof -
  have m: "(1 :: int) \<le> 2" by simp
  have h: "0 < sint (2 :: 32 word)" by simp
  have np: "numpy_samples (numpy_plain libm_table) libm_table (Finite 0) (Finite 2) 2"
    using m by (rule numpy_plain_samples)
  have t: "\<not> overflow_threshold \<le> (of_int 2 :: rat)" using one_less_threshold(2) by simp
  have s: "fmul (fdiv (fsub (Finite 2) (Finite 0)) (round64 (of_int 2)))
      (np_sum (numpy_plain libm_table) (left_terms libm_table (Finite 0) (Finite 2) 2)) =
      Finite sincos_1"
    unfolding numpy_plain_sum riemann_left_terms [symmetric] by (rule riemann_left_0_2)
  show ?thesis
    using implementations_left_riemann [OF m np h] samples_0_2_finite t s m np h
    by (simp add: riemann_left_0_2)
qed

section \<open>Degenerate intervals\<close>

text \<open>
  Claim C8 says that \<open>integrate(a, a, N)\<close> is \<open>0.0\<close> for every finite \<open>a\<close> and every
  integer \<open>N \<ge> 1\<close>.  At \<open>N = 2 ^ 1024\<close> the base Python function raises
  \<open>OverflowError\<close>: the count does not convert to a double.
\<close>

theorem zero_width_counterexample:
  "integrate_python libm_table (Finite 1) (Finite 1) (2 ^ 1024) = Inl OverflowError"
  by (rule integrate_python_too_many)

text \<open>
  Claim C8, amended: for every finite \<open>a\<close> and every integer \<open>N \<ge> 1\<close> that converts to
  a double (\<open>N < 2 ^ 1024 - 2 ^ 970\<close>), \<open>integrate_python(a, a, N)\<close> returns zero, whatever
  values between -1 and 1 the C library gives \<open>sin\<close> and \<open>cos\<close>: \<open>dx\<close> is zero, the
  accumulator stays finite, and \<open>s * dx\<close> is zero.
\<close>

theorem zero_width_zero:
  assumes "libm_bounded L" and "finite_double a" and "1 \<le> N" and "of_int N < overflow_threshold"
  shows "integrate_python L a a N = Inr (Finite 0)"
  using assms by (rule integrate_python_zero_width)

theorem zero_width_zero_witness:
  "libm_bounded libm_table \<and> finite_double (Finite 1) \<and> (1::int) \<le> 3 \<and>
   (of_int 3 :: rat) < overflow_threshold \<and>
   integrate_python libm_table (Finite 1) (Finite 1) 3 = Inr (Finite 0)"
proof -
  have f: "finite_double (Finite 1)" by (simp add: finite_double_def max_double_def)
  have n: "(of_int 3 :: rat) < overflow_threshold" by (simp add: overflow_threshold_def)
  show ?thesis
    using libm_table_bounded f n zero_width_zero [OF libm_table_bounded f _ n] by simp
qed

text \<open>
  Claim C9: \<open>integrate(0, pi/2, 1)\<close> returns exactly \<open>0.0\<close>, because the only sample point
  is 0 and \<open>sin(0) = 0\<close>, which the C library guarantees.
\<close>

theorem single_bin_zero:
  assumes "libm_sin L 0 = 0"
  shows "integrate_python L (Finite 0) (Finite half_pi) 1 = Inr (Finite 0)"
  using assms by (rule integrate_python_single_bin)

theorem single_bin_zero_witness:
  "libm_sin libm_table 0 = 0 \<and>
   integrate_python libm_table (Finite 0) (Finite half_pi) 1 = Inr (Finite 0)"
proof -
  have h: "libm_sin libm_table 0 = 0" by (simp add: libm_table_def)
  show ?thesis using h single_bin_zero [OF h] by simp
qed

section \<open>Convergence on the quarter period\<close>

text \<open>
  Claim C6 as stated, a bound \<open>C / N\<close> on \<open>|integrate(0, pi/2, N) - 0.5|\<close> for every integer
  \<open>N \<ge> 1000\<close>, fails: for \<open>N = 2 ^ 1024\<close> the division \<open>(b - a) / N\<close> raises
  \<open>OverflowError\<close> and there is no value to bound.
\<close>

theorem integrate_python_rate_counterexample:
  "(1000 :: int) \<le> 2 ^ 1024 \<and>
   integrate_python libm_rounded (Finite 0) (Finite half_pi) (2 ^ 1024) = Inl OverflowError"
  by (intro conjI integrate_python_too_many) simp

text \<open>
  Claim C6, amended: for \<open>a = 0.0\<close>, \<open>b = 1.5707963267948966\<close> and every integer \<open>N \<ge> 1000\<close>
  that converts to a double (\<open>N < 2 ^ 1024 - 2 ^ 970\<close>), \<open>integrate_python\<close> returns a float
  whose distance from \<open>0.5\<close> is at most \<open>C / N\<close> with the constant \<open>C = 2 ^ 1071\<close>, and at
  most \<open>4 / N\<close> when \<open>N \<le> 500000\<close>, on every platform whose \<open>sin\<close> and \<open>cos\<close> are within
  \<open>2 ^ -20\<close> of the mathematical sine and cosine.  (The accumulator of the loop never
  exceeds \<open>2 ^ 54\<close>, so that for the largest counts the result is far from \<open>0.5\<close> and no
  small constant serves all \<open>N\<close>.)
\<close>

theorem integrate_python_rate:
  assumes "libm_accurate L" and "1000 \<le> N" and "of_int N < overflow_threshold"
  shows "\<exists>r. integrate_python L (Finite 0) (Finite half_pi) N = Inr (Finite r) \<and>
     \<bar>of_rat r - (1 / 2 :: real)\<bar> \<le> 2 ^ 1071 / of_int N \<and>
     (N \<le> 500000 \<longrightarrow> \<bar>of_rat r - (1 / 2 :: real)\<bar> \<le> 4 / of_int N)"
proof -
  obtain r where r: "integrate_python L (Finite 0) (Finite half_pi) N = Inr (Finite r)"
    "\<bar>of_rat r - (1 / 2 :: real)\<bar> \<le> 2 ^ 1071 / of_int N"
    using integrate_python_half_pi_finite [OF assms] by blast
  have "\<bar>of_rat r - (1 / 2 :: real)\<bar> \<le> 4 / of_int N" if "N \<le> 500000"
    using integrate_python_half_pi_accurate [OF assms(1,2) that] r(1) by auto
  then show ?thesis using r by blast
qed

theorem integrate_python_rate_witness:
  "libm_accurate libm_rounded \<and> (1000 :: int) \<le> 1000 \<and>
   (of_int 1000 :: rat) < overflow_threshold \<and>
   (\<exists>r. integrate_python libm_rounded (Finite 0) (Finite half_pi) 1000 = Inr (Finite r) \<and>
      \<bar>of_rat r - (1 / 2 :: real)\<bar> \<le> 4 / 1000)"
proof -
  have t: "(of_int 1000 :: rat) < overflow_threshold" by (simp add: overflow_threshold_def)
  show ?thesis
    using integrate_python_rate [OF libm_rounded_accurate _ t] libm_rounded_accurate t
    by auto
qed

text \<open>
  Claim C7: for \<open>a = 0.0\<close>, \<open>b = 1.5707963267948966\<close> and \<open>N = 500000\<close>,
  \<open>integrate_python\<close> returns a float within \<open>1e-5\<close> of \<open>0.5\<close>, on every platform whose
  \<open>sin\<close> and \<open>cos\<close> are within \<open>2 ^ -20\<close> of the mathematical sine and cosine.
\<close>

theorem integrate_python_half_pi:
  assumes "libm_accurate L"
  shows "\<exists>r. integrate_python L (Finite 0) (Finite half_pi) 500000 = Inr (Finite r) \<and>
     \<bar>of_rat r - (1 / 2 :: real)\<bar> \<le> 1 / 100000"
proof -
  obtain r where r: "integrate_python L (Finite 0) (Finite half_pi) 500000 = Inr (Finite r)"
    "\<bar>of_rat r - (1 / 2 :: real)\<bar> \<le> 4 / of_int 500000"
    using integrate_python_half_pi_accurate [OF assms, of 500000] by auto
  from r(2) have "\<bar>of_rat r - (1 / 2 :: real)\<bar> \<le> 1 / 100000" by simp
  then show ?thesis using r(1) by blast
qed

theorem integrate_python_half_pi_witness:
  "libm_accurate libm_rounded \<and>
   (\<exists>r. integrate_python libm_rounded (Finite 0) (Finite half_pi) 500000 = Inr (Finite r) \<and>
     \<bar>of_rat r - (1 / 2 :: real)\<bar> \<le> 1 / 100000)"
  using integrate_python_half_pi [OF libm_rounded_accurate] libm_rounded_accurate by simp

end
